theory Spec2Isabelle
  imports Complex_Main "HOL-Library.Multiset" "HOL-Library.Sublist"
begin

section \<open>The load generator \<open>spam_script.py\<close>\<close>

text \<open>
  The script reads prompts from a text file, starts a pool of worker threads on one
  shared \<open>Queue\<close>, lets every worker send its prompts to an HTTP endpoint and append one
  JSON line per prompt to a shared output file under \<open>file_lock\<close>, and waits with
  \<open>prompt_q.join()\<close>.

  The embedding has two layers. The record that \<open>send_prompt\<close> builds is a pure
  function of the prompt, the clock readings and what \<open>requests.post\<close> did. The threads
  are an interleaving semantics: a state holding the files, the queue, the lock and the
  program point of every thread, and a function \<open>step\<close> that executes one statement of
  one thread. A schedule is a list of such actions; every theorem about runs holds for
  all schedules.
\<close>

subsection \<open>Python values and the output record\<close>

text \<open>
  Values that can end up in a field of the output record: what \<open>resp.json()\<close> returns,
  strings, \<open>None\<close> and the rounded elapsed time. Floats are idealised as rationals.
  A \<open>PDict\<close> lists the items of a Python dict, whose keys are distinct.
\<close>

datatype pyval =
    PNone
  | PBool bool
  | PInt int
  | PFloat rat
  | PStr string
  | PList "pyval list"
  | PDict "(string \<times> pyval) list"

text \<open>
  A Python \<open>str\<close> whose characters the script looks at, as the list of its Unicode
  code points: the lines of the prompt file and the prompts stripped from them. Strings
  that the script only copies or compares as a whole (the sentinels, the body of a
  response, the text of an exception) stay of type \<open>string\<close>. \<open>codes\<close> gives the
  code points of an ASCII literal.
\<close>

type_synonym pystr = "nat list"

definition codes :: "string \<Rightarrow> pystr" where
  "codes s = map of_char s"

text \<open>The dict written by \<open>send_prompt\<close>; the field names are those of the source.\<close>

record result =
  prompt :: pystr
  start_time_utc :: string
  end_time_utc :: string
  time_seconds :: pyval
  output_tokens :: pyval
  response :: pyval

text \<open>
  What the script reads of a \<open>requests.Response\<close>: \<open>resp.status_code\<close>,
  \<open>resp.text\<close> and \<open>resp.json()\<close>, which returns a value or raises
  (\<open>None\<close> here).
\<close>

record http_response =
  status_code :: int
  resp_text :: string
  resp_json :: "pyval option"

text \<open>
  The three ways \<open>requests.post(ENDPOINT, json=payload, timeout=300)\<close> can end:
  it returns a response, it raises \<open>requests.exceptions.Timeout\<close>, or it raises
  another \<open>Exception e\<close>, of which the script keeps \<open>str(e)\<close>.
\<close>

datatype call_outcome =
    Returned http_response
  | RaisedTimeout
  | RaisedOther string

text \<open>
  The \<open>timeout=300\<close> of line 26, in seconds. In \<open>requests\<close> it bounds the wait for
  the connection and each wait for bytes of the response, not the call as a whole: a
  response that arrives slowly can take longer and is still returned. Only a timeout
  while connecting or while waiting for the head of the response raises
  \<open>requests.exceptions.Timeout\<close>; one while the body is read is raised as
  \<open>ConnectionError\<close>, which line 59 does not catch and line 69 does. So the outcome
  of a call and the clock readings around it are independent inputs of the model.
\<close>

definition request_timeout :: rat where
  "request_timeout = 300"

subsection \<open>Clock readings\<close>

text \<open>
  \<open>datetime.utcnow()\<close> as its calendar fields (years have four digits), and
  \<open>strftime("%Y-%m-%d %H:%M:%S")\<close> on it.
\<close>

record datetime =
  dt_year :: nat
  dt_month :: nat
  dt_day :: nat
  dt_hour :: nat
  dt_minute :: nat
  dt_second :: nat

definition digit :: "nat \<Rightarrow> char" where
  "digit d = ''0123456789'' ! (d mod 10)"

definition pad2 :: "nat \<Rightarrow> string" where
  "pad2 n = [digit (n div 10), digit n]"

definition pad4 :: "nat \<Rightarrow> string" where
  "pad4 n = [digit (n div 1000), digit (n div 100), digit (n div 10), digit n]"

definition strftime :: "datetime \<Rightarrow> string" where
  "strftime d =
     pad4 (dt_year d) @ ''-'' @ pad2 (dt_month d) @ ''-'' @ pad2 (dt_day d) @ '' '' @
     pad2 (dt_hour d) @ '':'' @ pad2 (dt_minute d) @ '':'' @ pad2 (dt_second d)"

text \<open>\<open>round(elapsed, 3)\<close>: to three decimals, ties to the even neighbour.\<close>

definition round_half_even :: "rat \<Rightarrow> int" where
  "round_half_even x =
     (let f = \<lfloor>x\<rfloor>; d = x - of_int f
      in if d < 1 / 2 then f
         else if 1 / 2 < d then f + 1
         else if even f then f else f + 1)"

definition round3 :: "rat \<Rightarrow> rat" where
  "round3 x = of_int (round_half_even (x * 1000)) / 1000"

subsection \<open>The record built by \<open>send_prompt\<close> (lines 18 to 78)\<close>

text \<open>
  \<open>data.get("eval_count", "")\<close>: defined on a dict only; on any other value the
  attribute lookup raises (\<open>None\<close> here), inside the inner \<open>try\<close>.
\<close>

fun dict_get :: "pyval \<Rightarrow> string \<Rightarrow> pyval \<Rightarrow> pyval option" where
  "dict_get (PDict kvs) k d = Some (case map_of kvs k of Some v \<Rightarrow> v | None \<Rightarrow> d)"
| "dict_get _ k d = None"

text \<open>The record of lines 30-37 and 51-58 (the same dict literal twice).\<close>

definition error_result :: "pystr \<Rightarrow> datetime \<Rightarrow> datetime \<Rightarrow> http_response \<Rightarrow> result" where
  "error_result p start_dt end_dt resp =
     \<lparr>prompt = p,
      start_time_utc = strftime start_dt,
      end_time_utc = strftime end_dt,
      time_seconds = PStr ''ERROR'',
      output_tokens = PStr ''ERROR'',
      response = PStr (resp_text resp)\<rparr>"

text \<open>
  \<open>build_result prompt start_dt start_time outcome end_dt end_time\<close> is the value of
  \<open>result\<close> at line 79. \<open>start_dt\<close> and \<open>start_time\<close> are the clock readings of
  lines 18-19, \<open>outcome\<close> is what the call of line 26 did, \<open>end_dt\<close> is the reading of
  line 27 (60 or 70 when the call raised) and \<open>end_time\<close> is \<open>time.time()\<close> at line 28.
\<close>

fun build_result ::
  "pystr \<Rightarrow> datetime \<Rightarrow> rat \<Rightarrow> call_outcome \<Rightarrow> datetime \<Rightarrow> rat \<Rightarrow> result" where
  "build_result p start_dt start_time (Returned resp) end_dt end_time =
     (let elapsed = end_time - start_time
      in if status_code resp \<noteq> 200 then error_result p start_dt end_dt resp
         else (case resp_json resp of
                 None \<Rightarrow> error_result p start_dt end_dt resp
               | Some data \<Rightarrow>
                   (case dict_get data ''eval_count'' (PStr '''') of
                      None \<Rightarrow> error_result p start_dt end_dt resp
                    | Some tokens \<Rightarrow>
                        \<lparr>prompt = p,
                         start_time_utc = strftime start_dt,
                         end_time_utc = strftime end_dt,
                         time_seconds = PFloat (round3 elapsed),
                         output_tokens = tokens,
                         response = data\<rparr>)))"
| "build_result p start_dt start_time RaisedTimeout end_dt end_time =
     \<lparr>prompt = p,
      start_time_utc = strftime start_dt,
      end_time_utc = strftime end_dt,
      time_seconds = PStr ''TIMEOUT'',
      output_tokens = PStr ''TIMEOUT'',
      response = PNone\<rparr>"
| "build_result p start_dt start_time (RaisedOther e) end_dt end_time =
     \<lparr>prompt = p,
      start_time_utc = strftime start_dt,
      end_time_utc = strftime end_dt,
      time_seconds = PStr ''ERROR'',
      output_tokens = PStr ''ERROR'',
      response = PStr e\<rparr>"

text \<open>
  The branch of \<open>send_prompt\<close> that a call takes. The script stores no status field;
  these predicates name its branches: a response whose status is not 200 (line 29), and
  a response with status 200 whose body does not parse into a dict (line 50).
\<close>

fun is_http_error :: "call_outcome \<Rightarrow> bool" where
  "is_http_error (Returned resp) = (status_code resp \<noteq> 200)"
| "is_http_error _ = False"

fun is_parse_error :: "call_outcome \<Rightarrow> bool" where
  "is_parse_error (Returned resp) =
     (status_code resp = 200 \<and>
      (case resp_json resp of
         None \<Rightarrow> True
       | Some data \<Rightarrow> dict_get data ''eval_count'' (PStr '''') = None))"
| "is_parse_error _ = False"

fun is_transport_error :: "call_outcome \<Rightarrow> bool" where
  "is_transport_error (RaisedOther e) = True"
| "is_transport_error _ = False"

subsection \<open>Reading the prompt file (lines 94 and 95)\<close>

text \<open>
  \<open>[line.strip() for line in f if line.strip()]\<close> on the lines of the file.
  \<open>str.strip()\<close> removes leading and trailing whitespace, that is the code points
  on which \<open>str.isspace()\<close> holds: tab, line feed, vertical tab, form feed, carriage
  return, the separators \<open>0x1C\<close> to \<open>0x1F\<close>, the space, \<open>U+0085\<close>, \<open>U+00A0\<close>,
  \<open>U+1680\<close>, \<open>U+2000\<close> to \<open>U+200A\<close>, \<open>U+2028\<close>, \<open>U+2029\<close>, \<open>U+202F\<close>,
  \<open>U+205F\<close> and \<open>U+3000\<close>.
\<close>

definition is_space :: "nat \<Rightarrow> bool" where
  "is_space c \<longleftrightarrow>
     c \<in> set [0x09, 0x0A, 0x0B, 0x0C, 0x0D, 0x1C, 0x1D, 0x1E, 0x1F, 0x20,
               0x85, 0xA0, 0x1680] \<or>
     (0x2000 \<le> c \<and> c \<le> 0x200A) \<or>
     c \<in> set [0x2028, 0x2029, 0x202F, 0x205F, 0x3000]"

definition strip :: "pystr \<Rightarrow> pystr" where
  "strip l = rev (dropWhile is_space (rev (dropWhile is_space l)))"

definition read_prompts :: "pystr list \<Rightarrow> pystr list" where
  "read_prompts ls = map strip (filter (\<lambda>l. strip l \<noteq> []) ls)"

subsection \<open>Threads, queue and files\<close>

definition MAX_THREADS :: nat where
  "MAX_THREADS = 128"

text \<open>
  What the model takes from the libraries. A \<open>queue.Queue()\<close> is an unbounded FIFO
  with a counter \<open>unfinished_tasks\<close>; \<open>put\<close>, \<open>get\<close> and \<open>task_done\<close> are atomic
  (the queue has its own mutex), \<open>get\<close> blocks on an empty queue and \<open>join\<close> blocks
  until the counter is zero. A \<open>threading.Lock\<close> is free or held. An exception that a
  thread does not catch ends that thread only. Failures that the model covers: the
  prompt file is missing, and opening or writing the output file inside
  \<open>send_prompt\<close> raises. Creating a thread and the truncating \<open>open\<close> of line 101
  are taken to succeed. Under \<open>file_lock\<close> a line is written in one step.
\<close>

text \<open>
  The program point of the main thread in \<open>main\<close>:
  \<^item> \<open>MRead\<close>: before line 94 (open and read \<open>PROMPT_FILE\<close>);
  \<^item> \<open>MClear\<close>: before line 101 (\<open>open(OUTFILE, "w").close()\<close>);
  \<^item> \<open>MStart n\<close>: in the loop of lines 104-107 with \<open>n\<close> iterations to go;
  \<^item> \<open>MEnq ps\<close>: in the loop of lines 110-111 with the prompts \<open>ps\<close> to go;
  \<^item> \<open>MMark n\<close>: in the loop of lines 114-115 with \<open>n\<close> iterations to go;
  \<^item> \<open>MJoin\<close>: in \<open>prompt_q.join()\<close>, line 118;
  \<^item> \<open>MPrint\<close>: before line 120;
  \<^item> \<open>MFinished\<close>: \<open>main\<close> has returned;
  \<^item> \<open>MFailed\<close>: \<open>main\<close> has ended with an uncaught exception.
\<close>

datatype mstate =
    MRead
  | MClear
  | MStart nat
  | MEnq "pystr list"
  | MMark nat
  | MJoin
  | MPrint
  | MFinished
  | MFailed

text \<open>
  The program point of a worker thread in \<open>worker\<close> and \<open>send_prompt\<close>:
  \<^item> \<open>WGet\<close>: before \<open>prompt_q.get()\<close>, line 86;
  \<^item> \<open>WGot x\<close>: \<open>prompt = x\<close> dequeued, before line 87 (\<open>None\<close> is the marker);
  \<^item> \<open>WResult r\<close>: in \<open>send_prompt\<close> before line 80, with \<open>result = r\<close>;
  \<^item> \<open>WLocked r\<close>: holding \<open>file_lock\<close>, before lines 81-82;
  \<^item> \<open>WWritten\<close>: line written and file closed, still holding \<open>file_lock\<close>;
  \<^item> \<open>WSent\<close>: \<open>send_prompt\<close> has returned, before \<open>task_done()\<close> of line 91;
  \<^item> \<open>WMarkerDone\<close>: after \<open>task_done()\<close> of line 88, before \<open>break\<close>;
  \<^item> \<open>WExited\<close>: \<open>worker\<close> has returned;
  \<^item> \<open>WCrashed x\<close>: the thread has ended with an uncaught exception; \<open>x\<close> is the
    record it had not written, if any.
\<close>

datatype wstate =
    WGet
  | WGot "pystr option"
  | WResult result
  | WLocked result
  | WWritten
  | WSent
  | WMarkerDone
  | WExited
  | WCrashed "result option"

text \<open>
  The state of the process and its two files. \<open>infile\<close> is the list of lines of
  \<open>PROMPT_FILE\<close>, \<open>None\<close> when the file does not exist; \<open>outfile\<close> is the list of
  lines of \<open>OUTFILE\<close>, each the record that was dumped on it. \<open>queue\<close> and
  \<open>unfinished_tasks\<close> are those of \<open>prompt_q\<close>: \<open>put\<close> appends an entry and
  counts it, \<open>task_done\<close> counts down, \<open>join\<close> waits for zero. \<open>threads\<close> holds
  one program point for each \<open>Thread\<close> that was started. \<open>reported\<close> is the number
  in the message of line 120 once it is printed.
\<close>

record state =
  infile :: "pystr list option"
  outfile :: "result list"
  main_pc :: mstate
  prompts :: "pystr list"
  threads :: "wstate list"
  queue :: "pystr option list"
  unfinished_tasks :: nat
  file_lock :: bool
  reported :: "nat option"

definition init :: "pystr list option \<Rightarrow> result list \<Rightarrow> state" where
  "init f old =
     \<lparr>infile = f, outfile = old, main_pc = MRead, prompts = [], threads = [],
      queue = [], unfinished_tasks = 0, file_lock = False, reported = None\<rparr>"

text \<open>\<open>prompt_q.put(x)\<close>: the queue is unbounded, so \<open>put\<close> never blocks.\<close>

definition put :: "pystr option \<Rightarrow> state \<Rightarrow> state" where
  "put x s = s\<lparr>queue := queue s @ [x], unfinished_tasks := unfinished_tasks s + 1\<rparr>"

text \<open>
  One statement of the main thread, with \<open>C\<close> for the configured \<open>MAX_THREADS\<close>.
  \<open>None\<close> means that the thread cannot move: it blocks in \<open>join\<close> while
  \<open>unfinished_tasks\<close> is not zero, and it has no statement left once it has ended.
\<close>

fun main_step :: "nat \<Rightarrow> mstate \<Rightarrow> state \<Rightarrow> state option" where
  "main_step C MRead s =
     (case infile s of
        None \<Rightarrow> Some (s\<lparr>main_pc := MFailed\<rparr>)
      | Some ls \<Rightarrow> Some (s\<lparr>prompts := read_prompts ls, main_pc := MClear\<rparr>))"
| "main_step C MClear s =
     Some (s\<lparr>outfile := [], main_pc := MStart (min C (length (prompts s)))\<rparr>)"
| "main_step C (MStart (Suc n)) s =
     Some (s\<lparr>threads := threads s @ [WGet], main_pc := MStart n\<rparr>)"
| "main_step C (MStart 0) s = Some (s\<lparr>main_pc := MEnq (prompts s)\<rparr>)"
| "main_step C (MEnq (p # ps)) s = Some ((put (Some p) s)\<lparr>main_pc := MEnq ps\<rparr>)"
| "main_step C (MEnq []) s = Some (s\<lparr>main_pc := MMark (length (threads s))\<rparr>)"
| "main_step C (MMark (Suc n)) s = Some ((put None s)\<lparr>main_pc := MMark n\<rparr>)"
| "main_step C (MMark 0) s = Some (s\<lparr>main_pc := MJoin\<rparr>)"
| "main_step C MJoin s =
     (if unfinished_tasks s = 0 then Some (s\<lparr>main_pc := MPrint\<rparr>) else None)"
| "main_step C MPrint s =
     Some (s\<lparr>reported := Some (length (prompts s)), main_pc := MFinished\<rparr>)"
| "main_step C MFinished s = None"
| "main_step C MFailed s = None"

text \<open>
  The exit status of the interpreter once the main thread has ended: 0 after a normal
  return, 1 after an uncaught exception.
\<close>

fun exit_status :: "mstate \<Rightarrow> int option" where
  "exit_status MFinished = Some 0"
| "exit_status MFailed = Some 1"
| "exit_status _ = None"

definition thread_at :: "state \<Rightarrow> nat \<Rightarrow> wstate option" where
  "thread_at s i = (if i < length (threads s) then Some (threads s ! i) else None)"

definition set_thread :: "nat \<Rightarrow> wstate \<Rightarrow> state \<Rightarrow> state" where
  "set_thread i w s = s\<lparr>threads := (threads s)[i := w]\<rparr>"

text \<open>
  \<open>prompt_q.task_done()\<close> by thread \<open>i\<close>, which continues at \<open>w\<close>: it raises
  \<open>ValueError\<close> when called more often than there were entries.
\<close>

definition task_done :: "nat \<Rightarrow> wstate \<Rightarrow> state \<Rightarrow> state" where
  "task_done i w s =
     (if unfinished_tasks s = 0 then set_thread i (WCrashed None) s
      else set_thread i w (s\<lparr>unfinished_tasks := unfinished_tasks s - 1\<rparr>))"

text \<open>
  What the scheduler and the environment choose at each step: which thread runs its
  next statement, what the clock and the endpoint answer during a call, and whether the
  storage accepts a write.
  \<^item> \<open>MainStep\<close>: the main thread runs one statement;
  \<^item> \<open>Get i\<close>: worker \<open>i\<close> dequeues (it blocks on an empty queue);
  \<^item> \<open>Call i start_dt start_time outcome end_dt end_time\<close>: worker \<open>i\<close> runs lines
    18 to 78 of \<open>send_prompt\<close>;
  \<^item> \<open>Acquire i\<close>: worker \<open>i\<close> takes \<open>file_lock\<close> (it blocks while it is held);
  \<^item> \<open>Write i ok\<close>: worker \<open>i\<close> opens \<open>OUTFILE\<close> for appending, writes its line and
    closes the file, or (\<open>ok = False\<close>) one of these raises, which releases the lock
    and ends the thread, since neither \<open>send_prompt\<close> nor \<open>worker\<close> catches it;
  \<^item> \<open>Release i\<close>: worker \<open>i\<close> leaves the \<open>with file_lock\<close> block;
  \<^item> \<open>TaskDone i\<close>: worker \<open>i\<close> calls \<open>task_done()\<close> (line 88 or 91);
  \<^item> \<open>Exit i\<close>: worker \<open>i\<close> runs \<open>break\<close> and returns.
\<close>

datatype action =
    MainStep
  | Get nat
  | Call nat datetime rat call_outcome datetime rat
  | Acquire nat
  | Write nat bool
  | Release nat
  | TaskDone nat
  | Exit nat

fun step :: "nat \<Rightarrow> action \<Rightarrow> state \<Rightarrow> state option" where
  "step C MainStep s = main_step C (main_pc s) s"
| "step C (Get i) s =
     (case thread_at s i of
        Some WGet \<Rightarrow>
          (case queue s of
             [] \<Rightarrow> None
           | x # q \<Rightarrow> Some (set_thread i (WGot x) (s\<lparr>queue := q\<rparr>)))
      | _ \<Rightarrow> None)"
| "step C (Call i start_dt start_time outcome end_dt end_time) s =
     (case thread_at s i of
        Some (WGot (Some p)) \<Rightarrow>
          Some (set_thread i
                  (WResult (build_result p start_dt start_time outcome end_dt end_time)) s)
      | _ \<Rightarrow> None)"
| "step C (Acquire i) s =
     (case thread_at s i of
        Some (WResult r) \<Rightarrow>
          (if file_lock s then None
           else Some (set_thread i (WLocked r) (s\<lparr>file_lock := True\<rparr>)))
      | _ \<Rightarrow> None)"
| "step C (Write i ok) s =
     (case thread_at s i of
        Some (WLocked r) \<Rightarrow>
          (if ok then Some (set_thread i WWritten (s\<lparr>outfile := outfile s @ [r]\<rparr>))
           else Some (set_thread i (WCrashed (Some r)) (s\<lparr>file_lock := False\<rparr>)))
      | _ \<Rightarrow> None)"
| "step C (Release i) s =
     (case thread_at s i of
        Some WWritten \<Rightarrow> Some (set_thread i WSent (s\<lparr>file_lock := False\<rparr>))
      | _ \<Rightarrow> None)"
| "step C (TaskDone i) s =
     (case thread_at s i of
        Some (WGot None) \<Rightarrow> Some (task_done i WMarkerDone s)
      | Some WSent \<Rightarrow> Some (task_done i WGet s)
      | _ \<Rightarrow> None)"
| "step C (Exit i) s =
     (case thread_at s i of
        Some WMarkerDone \<Rightarrow> Some (set_thread i WExited s)
      | _ \<Rightarrow> None)"

text \<open>A run: the actions of a schedule one after the other, each of them enabled.\<close>

fun run :: "nat \<Rightarrow> action list \<Rightarrow> state \<Rightarrow> state option" where
  "run C [] s = Some s"
| "run C (a # as) s = (case step C a s of None \<Rightarrow> None | Some s' \<Rightarrow> run C as s')"

subsection \<open>Quantities of a state\<close>

text \<open>
  A worker is busy from the moment it has dequeued an entry until it has called
  \<open>task_done()\<close> for it; a thread that died with an exception stays busy for ever.
\<close>

fun busy :: "wstate \<Rightarrow> nat" where
  "busy WGet = 0"
| "busy WMarkerDone = 0"
| "busy WExited = 0"
| "busy _ = 1"

text \<open>The prompt of a queue entry, and the prompt a worker holds without having logged it.\<close>

fun queued :: "pystr option \<Rightarrow> pystr multiset" where
  "queued None = {#}"
| "queued (Some p) = {#p#}"

fun held :: "wstate \<Rightarrow> pystr multiset" where
  "held (WGot x) = queued x"
| "held (WResult r) = {#prompt r#}"
| "held (WLocked r) = {#prompt r#}"
| "held (WCrashed (Some r)) = {#prompt r#}"
| "held _ = {#}"

text \<open>The prompts that the main thread has still to put on the queue.\<close>

fun pending :: "mstate \<Rightarrow> pystr list \<Rightarrow> pystr list" where
  "pending (MStart n) ps = ps"
| "pending (MEnq qs) ps = qs"
| "pending _ ps = []"

text \<open>Whether the main thread is past line 101, which truncates \<open>OUTFILE\<close>.\<close>

fun truncated :: "mstate \<Rightarrow> bool" where
  "truncated MRead = False"
| "truncated MClear = False"
| "truncated MFailed = False"
| "truncated _ = True"


fun to_start :: "mstate \<Rightarrow> nat" where
  "to_start (MStart n) = n"
| "to_start _ = 0"

text \<open>
  A worker that has dequeued a marker, and the number of markers that were put on the
  queue so far: those still in the queue and those a worker has taken.
\<close>

fun took_marker :: "wstate \<Rightarrow> nat" where
  "took_marker (WGot None) = 1"
| "took_marker WMarkerDone = 1"
| "took_marker WExited = 1"
| "took_marker _ = 0"

definition markers_put :: "state \<Rightarrow> nat" where
  "markers_put s = count_list (queue s) None + sum_list (map took_marker (threads s))"

fun markers_left :: "mstate \<Rightarrow> nat \<Rightarrow> nat" where
  "markers_left (MMark k) n = k"
| "markers_left MJoin n = 0"
| "markers_left MPrint n = 0"
| "markers_left MFinished n = 0"
| "markers_left _ n = n"

text \<open>A worker that has marked its marker done (line 88).\<close>

fun marker_done :: "wstate \<Rightarrow> bool" where
  "marker_done WMarkerDone = True"
| "marker_done WExited = True"
| "marker_done _ = False"

text \<open>A worker inside the \<open>with file_lock\<close> block of lines 80-82.\<close>

fun in_block :: "wstate \<Rightarrow> nat" where
  "in_block (WLocked r) = 1"
| "in_block WWritten = 1"
| "in_block _ = 0"

subsection \<open>Invariants of a run\<close>

text \<open>
  Before the truncation nothing but \<open>prompts\<close> has changed; the prompts are those of
  the file.
\<close>

definition inv_pre :: "pystr list option \<Rightarrow> result list \<Rightarrow> state \<Rightarrow> bool" where
  "inv_pre f old s \<longleftrightarrow>
     infile s = f \<and>
     (\<not> truncated (main_pc s) \<longrightarrow>
        outfile s = old \<and> threads s = [] \<and> queue s = [] \<and> unfinished_tasks s = 0) \<and>
     (main_pc s = MFailed \<longrightarrow> f = None) \<and>
     (main_pc s \<noteq> MRead \<and> main_pc s \<noteq> MFailed \<longrightarrow>
        (\<exists>ls. f = Some ls \<and> prompts s = read_prompts ls))"

text \<open>\<open>unfinished_tasks\<close> counts the entries in the queue and the busy workers.\<close>

definition inv_count :: "state \<Rightarrow> bool" where
  "inv_count s \<longleftrightarrow>
     unfinished_tasks s = length (queue s) + sum_list (map busy (threads s))"

text \<open>
  Every prompt is in exactly one place: in the log, in the queue, in the hands of a
  worker, or still to be enqueued.
\<close>

definition inv_items :: "state \<Rightarrow> bool" where
  "inv_items s \<longleftrightarrow>
     (truncated (main_pc s) \<longrightarrow>
        mset (map prompt (outfile s)) + sum_list (map queued (queue s)) +
        sum_list (map held (threads s)) + mset (pending (main_pc s) (prompts s))
        = mset (prompts s))"

definition inv_join :: "state \<Rightarrow> bool" where
  "inv_join s \<longleftrightarrow>
     (main_pc s = MPrint \<or> main_pc s = MFinished \<longrightarrow> unfinished_tasks s = 0)"

definition inv_markers :: "state \<Rightarrow> bool" where
  "inv_markers s \<longleftrightarrow>
     markers_put s + markers_left (main_pc s) (length (threads s)) = length (threads s)"

definition inv_pool :: "nat \<Rightarrow> state \<Rightarrow> bool" where
  "inv_pool C s \<longleftrightarrow>
     (truncated (main_pc s) \<longrightarrow>
        length (threads s) + to_start (main_pc s) = min C (length (prompts s)))"

definition inv_lock :: "state \<Rightarrow> bool" where
  "inv_lock s \<longleftrightarrow> sum_list (map in_block (threads s)) = (if file_lock s then 1 else 0)"

definition invs :: "nat \<Rightarrow> pystr list option \<Rightarrow> result list \<Rightarrow> state \<Rightarrow> bool" where
  "invs C f old s \<longleftrightarrow>
     inv_pre f old s \<and> inv_count s \<and> inv_items s \<and> inv_join s \<and> inv_markers s \<and>
     inv_pool C s \<and> inv_lock s"

subsection \<open>Example runs\<close>

text \<open>
  Concrete inputs for the runs that the theorems below are tried on: clock readings, a
  response with status 200 and the JSON body \<open>{}\<close>, a response with status 500, a
  prompt file with two prompts and a blank line (the second prompt between a no-break
  space and an em space), a prompt file with blank lines only, and an output file left
  over from an earlier run.
\<close>

definition t_sent :: datetime where
  "t_sent = \<lparr>dt_year = 2025, dt_month = 3, dt_day = 9,
             dt_hour = 7, dt_minute = 5, dt_second = 1\<rparr>"

definition t_back :: datetime where
  "t_back = \<lparr>dt_year = 2025, dt_month = 3, dt_day = 9,
             dt_hour = 7, dt_minute = 5, dt_second = 3\<rparr>"

definition ok_response :: http_response where
  "ok_response = \<lparr>status_code = 200, resp_text = ''{}'', resp_json = Some (PDict [])\<rparr>"

definition busy_response :: http_response where
  "busy_response = \<lparr>status_code = 500, resp_text = ''overloaded'', resp_json = None\<rparr>"

definition two_lines :: "pystr list" where
  "two_lines = [codes ''alpha'' @ [0x0A], [0x0A], 0xA0 # codes '' beta'' @ [0x2003]]"

definition blank_lines :: "pystr list" where
  "blank_lines = [[0x0A], [0x20, 0x3000, 0x0A]]"

definition stale_log :: "result list" where
  "stale_log = [build_result (codes ''stale'') t_sent 0 RaisedTimeout t_back 300]"

definition record_alpha :: result where
  "record_alpha =
     build_result (codes ''alpha'') t_sent 10 (Returned ok_response) t_back (12345 / 1000)"

definition record_beta :: result where
  "record_beta = build_result (codes ''beta'') t_sent 10 (Returned busy_response) t_back 12"

definition unwritten_alpha :: result where
  "unwritten_alpha = build_result (codes ''alpha'') t_sent 10 (Returned ok_response) t_back 12"

text \<open>
  A schedule with two workers in which both prompts are sent, logged and marked done
  and the main thread has put both markers and waits in \<open>join\<close>; and its
  continuation, in which both workers take their marker, the main thread leaves
  \<open>join\<close> and prints, and worker 0 returns.
\<close>

definition sched_items_done :: "action list" where
  "sched_items_done =
     [MainStep, MainStep, MainStep, MainStep, MainStep, MainStep, Get 0, MainStep, Get 1,
      Call 1 t_sent 10 (Returned busy_response) t_back 12,
      Call 0 t_sent 10 (Returned ok_response) t_back (12345 / 1000),
      Acquire 1, MainStep, Write 1 True, Release 1, Acquire 0, Write 0 True, Release 0,
      TaskDone 0, TaskDone 1, MainStep, MainStep, MainStep]"

definition sched_drain :: "action list" where
  "sched_drain = [Get 0, Get 1, TaskDone 0, TaskDone 1, MainStep, MainStep, Exit 0]"

definition state_items_done :: state where
  "state_items_done =
     \<lparr>infile = Some two_lines, outfile = [record_beta, record_alpha], main_pc = MJoin,
      prompts = [codes ''alpha'', codes ''beta''], threads = [WGet, WGet], queue = [None, None],
      unfinished_tasks = 2, file_lock = False, reported = None\<rparr>"

definition state_finished :: state where
  "state_finished =
     \<lparr>infile = Some two_lines, outfile = [record_beta, record_alpha], main_pc = MFinished,
      prompts = [codes ''alpha'', codes ''beta''], threads = [WExited, WMarkerDone], queue = [],
      unfinished_tasks = 0, file_lock = False, reported = Some 2\<rparr>"

text \<open>
  A schedule in which the main thread runs up to \<open>join\<close>, both workers take a prompt
  and worker 0 holds the lock, about to write; and a continuation for worker 1 after
  the write of worker 0 has failed.
\<close>

definition sched_before_write :: "action list" where
  "sched_before_write =
     [MainStep, MainStep, MainStep, MainStep, MainStep, MainStep, MainStep, MainStep,
      MainStep, MainStep, MainStep, Get 0, Get 1,
      Call 0 t_sent 10 (Returned ok_response) t_back 12,
      Call 1 t_sent 10 (Returned busy_response) t_back 12, Acquire 0]"

definition sched_after_failure :: "action list" where
  "sched_after_failure =
     [Acquire 1, Write 1 True, Release 1, TaskDone 1, Get 1, TaskDone 1, Exit 1]"

definition state_before_write :: state where
  "state_before_write =
     \<lparr>infile = Some two_lines, outfile = [], main_pc = MJoin,
      prompts = [codes ''alpha'', codes ''beta''],
      threads = [WLocked unwritten_alpha, WResult record_beta], queue = [None, None],
      unfinished_tasks = 4, file_lock = True, reported = None\<rparr>"

definition state_write_failed :: state where
  "state_write_failed =
     \<lparr>infile = Some two_lines, outfile = [], main_pc = MJoin,
      prompts = [codes ''alpha'', codes ''beta''],
      threads = [WCrashed (Some unwritten_alpha), WResult record_beta],
      queue = [None, None], unfinished_tasks = 4, file_lock = False, reported = None\<rparr>"

definition state_hung :: state where
  "state_hung =
     \<lparr>infile = Some two_lines, outfile = [record_beta], main_pc = MJoin,
      prompts = [codes ''alpha'', codes ''beta''],
      threads = [WCrashed (Some unwritten_alpha), WExited], queue = [None],
      unfinished_tasks = 2, file_lock = False, reported = None\<rparr>"

text \<open>The seven statements of the main thread when there is no prompt.\<close>

definition sched_no_items :: "action list" where
  "sched_no_items = [MainStep, MainStep, MainStep, MainStep, MainStep, MainStep, MainStep]"

subsection \<open>A schedule that completes\<close>

text \<open>
  The fields of a state that decide which actions are enabled, and a schedule for
  \<open>W\<close> workers and \<open>N\<close> prompts: the main thread runs up to \<open>join\<close>, worker 0
  serves every prompt (each call times out), every worker takes its marker and
  returns, and the main thread leaves \<open>join\<close> and prints.
\<close>

definition shape ::
  "state \<Rightarrow> mstate \<times> pystr list \<times> wstate list \<times> pystr option list \<times> nat \<times> bool" where
  "shape s = (main_pc s, prompts s, threads s, queue s, unfinished_tasks s, file_lock s)"

definition serve :: "nat \<Rightarrow> action list" where
  "serve i = [Get i, Call i t_sent 0 RaisedTimeout t_back 0, Acquire i, Write i True,
              Release i, TaskDone i]"

definition retire :: "nat \<Rightarrow> action list" where
  "retire i = [Get i, TaskDone i, Exit i]"

definition sequential :: "nat \<Rightarrow> nat \<Rightarrow> action list" where
  "sequential W N =
     [MainStep, MainStep] @ replicate W MainStep @ [MainStep] @ replicate N MainStep @
     [MainStep] @ replicate W MainStep @ [MainStep] @
     concat (replicate N (serve 0)) @ concat (map retire [0..<W]) @ [MainStep, MainStep]"

section \<open>Steps and invariants\<close>

lemmas run_defs =
  init_def put_def thread_at_def set_thread_def task_done_def read_prompts_def strip_def
  is_space_def codes_def MAX_THREADS_def t_sent_def t_back_def ok_response_def busy_response_def
  two_lines_def blank_lines_def stale_log_def record_alpha_def record_beta_def
  unwritten_alpha_def sched_items_done_def sched_drain_def state_items_done_def
  state_finished_def sched_before_write_def sched_after_failure_def
  state_before_write_def state_write_failed_def state_hung_def sched_no_items_def

lemma sum_list_map_update:
  fixes f :: "'a \<Rightarrow> 'b::comm_monoid_add"
  shows "i < length xs \<Longrightarrow>
    sum_list (map f (xs[i := y])) + f (xs ! i) = sum_list (map f xs) + f y"
proof (induction xs arbitrary: i)
  case Nil
  then show ?case by simp
next
  case (Cons x xs)
  show ?case
  proof (cases i)
    case 0
    then show ?thesis by (simp add: ac_simps)
  next
    case (Suc j)
    with Cons.prems have "j < length xs" by simp
    from Cons.IH[OF this] Suc show ?thesis
      by (simp add: add.assoc)
  qed
qed

lemma prompt_build_result [simp]:
  "prompt (build_result p start_dt start_time outcome end_dt end_time) = p"
  by (cases outcome) (simp_all add: error_result_def split: option.splits)

lemma step_cases [consumes 1, case_names main get call acquire write_ok write_fail release done_marker done_item exit]:
  assumes "step C a s = Some s'"
  obtains
    (main) "a = MainStep" "main_step C (main_pc s) s = Some s'"
  | (get) i x q where "a = Get i" "i < length (threads s)" "threads s ! i = WGet"
      "queue s = x # q" "s' = set_thread i (WGot x) (s\<lparr>queue := q\<rparr>)"
  | (call) i p start_dt start_time outcome end_dt end_time where
      "a = Call i start_dt start_time outcome end_dt end_time"
      "i < length (threads s)" "threads s ! i = WGot (Some p)"
      "s' = set_thread i (WResult (build_result p start_dt start_time outcome end_dt end_time)) s"
  | (acquire) i r where "a = Acquire i" "i < length (threads s)" "threads s ! i = WResult r"
      "\<not> file_lock s" "s' = set_thread i (WLocked r) (s\<lparr>file_lock := True\<rparr>)"
  | (write_ok) i r where "a = Write i True" "i < length (threads s)" "threads s ! i = WLocked r"
      "s' = set_thread i WWritten (s\<lparr>outfile := outfile s @ [r]\<rparr>)"
  | (write_fail) i r where "a = Write i False" "i < length (threads s)" "threads s ! i = WLocked r"
      "s' = set_thread i (WCrashed (Some r)) (s\<lparr>file_lock := False\<rparr>)"
  | (release) i where "a = Release i" "i < length (threads s)" "threads s ! i = WWritten"
      "s' = set_thread i WSent (s\<lparr>file_lock := False\<rparr>)"
  | (done_marker) i where "a = TaskDone i" "i < length (threads s)" "threads s ! i = WGot None"
      "s' = task_done i WMarkerDone s"
  | (done_item) i where "a = TaskDone i" "i < length (threads s)" "threads s ! i = WSent"
      "s' = task_done i WGet s"
  | (exit) i where "a = Exit i" "i < length (threads s)" "threads s ! i = WMarkerDone"
      "s' = set_thread i WExited s"
proof (cases a)
  case MainStep
  with assms main show ?thesis by simp
next
  case (Get i)
  with assms get[of i] show ?thesis
    by (auto simp: thread_at_def split: if_splits wstate.splits list.splits)
next
  case (Call i start_dt start_time outcome end_dt end_time)
  with assms call[of i start_dt start_time outcome end_dt end_time] show ?thesis
    by (auto simp: thread_at_def split: if_splits wstate.splits option.splits)
next
  case (Acquire i)
  with assms acquire[of i] show ?thesis
    by (auto simp: thread_at_def split: if_splits wstate.splits)
next
  case (Write i ok)
  with assms write_ok[of i] write_fail[of i] show ?thesis
    by (cases ok) (auto simp: thread_at_def split: if_splits wstate.splits)
next
  case (Release i)
  with assms release[of i] show ?thesis
    by (auto simp: thread_at_def split: if_splits wstate.splits)
next
  case (TaskDone i)
  with assms done_marker[of i] done_item[of i] show ?thesis
    by (auto simp: thread_at_def split: if_splits wstate.splits option.splits)
next
  case (Exit i)
  with assms exit[of i] show ?thesis
    by (auto simp: thread_at_def split: if_splits wstate.splits)
qed

lemma main_cases [consumes 1, case_names read_missing read clear start_thread start_done enq enq_done mark mark_done join print]:
  assumes "main_step C (main_pc s) s = Some s'"
  obtains
    (read_missing) "main_pc s = MRead" "infile s = None" "s' = s\<lparr>main_pc := MFailed\<rparr>"
  | (read) ls where "main_pc s = MRead" "infile s = Some ls"
      "s' = s\<lparr>prompts := read_prompts ls, main_pc := MClear\<rparr>"
  | (clear) "main_pc s = MClear"
      "s' = s\<lparr>outfile := [], main_pc := MStart (min C (length (prompts s)))\<rparr>"
  | (start_thread) n where "main_pc s = MStart (Suc n)"
      "s' = s\<lparr>threads := threads s @ [WGet], main_pc := MStart n\<rparr>"
  | (start_done) "main_pc s = MStart 0" "s' = s\<lparr>main_pc := MEnq (prompts s)\<rparr>"
  | (enq) p ps where "main_pc s = MEnq (p # ps)" "s' = (put (Some p) s)\<lparr>main_pc := MEnq ps\<rparr>"
  | (enq_done) "main_pc s = MEnq []" "s' = s\<lparr>main_pc := MMark (length (threads s))\<rparr>"
  | (mark) n where "main_pc s = MMark (Suc n)" "s' = (put None s)\<lparr>main_pc := MMark n\<rparr>"
  | (mark_done) "main_pc s = MMark 0" "s' = s\<lparr>main_pc := MJoin\<rparr>"
  | (join) "main_pc s = MJoin" "unfinished_tasks s = 0" "s' = s\<lparr>main_pc := MPrint\<rparr>"
  | (print) "main_pc s = MPrint"
      "s' = s\<lparr>reported := Some (length (prompts s)), main_pc := MFinished\<rparr>"
proof (cases "main_pc s")
  case MRead
  with assms read_missing read show ?thesis
    by (cases "infile s") auto
next
  case MClear
  with assms clear show ?thesis by auto
next
  case (MStart n)
  with assms start_thread start_done show ?thesis by (cases n) auto
next
  case (MEnq ps)
  with assms enq enq_done show ?thesis by (cases ps) auto
next
  case (MMark n)
  with assms mark mark_done show ?thesis by (cases n) auto
next
  case MJoin
  with assms join show ?thesis by (auto split: if_splits)
next
  case MPrint
  with assms print show ?thesis by auto
next
  case MFinished
  with assms show ?thesis by simp
next
  case MFailed
  with assms show ?thesis by simp
qed

lemma busy_update:
  "i < length ts \<Longrightarrow>
   sum_list (map busy (ts[i := w])) + busy (ts ! i) = sum_list (map busy ts) + busy w"
  by (rule sum_list_map_update)

lemma held_update:
  "i < length ts \<Longrightarrow>
   sum_list (map held (ts[i := w])) + held (ts ! i) = sum_list (map held ts) + held w"
  by (rule sum_list_map_update)

lemma busy_le_sum: "i < length ts \<Longrightarrow> busy (ts ! i) \<le> sum_list (map busy ts)"
  by (simp add: member_le_sum_list)

lemma unfinished_pos:
  assumes "inv_count s" and "i < length (threads s)" and "busy (threads s ! i) = 1"
  shows "0 < unfinished_tasks s"
proof -
  from busy_le_sum[OF assms(2)] assms(3) have "1 \<le> sum_list (map busy (threads s))"
    by simp
  with assms(1) show ?thesis by (simp add: inv_count_def)
qed

lemma task_done_eq:
  assumes "inv_count s" and "i < length (threads s)" and "busy (threads s ! i) = 1"
  shows "task_done i w s = set_thread i w (s\<lparr>unfinished_tasks := unfinished_tasks s - 1\<rparr>)"
  using unfinished_pos[OF assms] by (simp add: task_done_def)

lemma inv_count_step:
  assumes "inv_count s" and "step C a s = Some s'"
  shows "inv_count s'"
  using assms(2)
proof (cases rule: step_cases)
  case main
  from main(2) show ?thesis
    using assms(1) by (cases rule: main_cases) (simp_all add: inv_count_def put_def)
next
  case (get i x q)
  with assms(1) busy_update[of i "threads s" "WGot x"] show ?thesis
    by (simp add: inv_count_def set_thread_def)
next
  case (call i p start_dt start_time outcome end_dt end_time)
  with assms(1) busy_update[of i "threads s"
      "WResult (build_result p start_dt start_time outcome end_dt end_time)"]
  show ?thesis
    by (simp add: inv_count_def set_thread_def)
next
  case (acquire i r)
  with assms(1) busy_update[of i "threads s" "WLocked r"] show ?thesis
    by (simp add: inv_count_def set_thread_def)
next
  case (write_ok i r)
  with assms(1) busy_update[of i "threads s" "WWritten"] show ?thesis
    by (simp add: inv_count_def set_thread_def)
next
  case (write_fail i r)
  with assms(1) busy_update[of i "threads s" "WCrashed (Some r)"] show ?thesis
    by (simp add: inv_count_def set_thread_def)
next
  case (release i)
  with assms(1) busy_update[of i "threads s" "WSent"] show ?thesis
    by (simp add: inv_count_def set_thread_def)
next
  case (done_marker i)
  then have s': "s' = set_thread i WMarkerDone (s\<lparr>unfinished_tasks := unfinished_tasks s - 1\<rparr>)"
    using task_done_eq[OF assms(1), of i WMarkerDone] by simp
  from done_marker have "0 < unfinished_tasks s"
    using unfinished_pos[OF assms(1), of i] by simp
  with s' done_marker assms(1) busy_update[of i "threads s" "WMarkerDone"] show ?thesis
    by (simp add: inv_count_def set_thread_def)
next
  case (done_item i)
  then have s': "s' = set_thread i WGet (s\<lparr>unfinished_tasks := unfinished_tasks s - 1\<rparr>)"
    using task_done_eq[OF assms(1), of i WGet] by simp
  from done_item have "0 < unfinished_tasks s"
    using unfinished_pos[OF assms(1), of i] by simp
  with s' done_item assms(1) busy_update[of i "threads s" "WGet"] show ?thesis
    by (simp add: inv_count_def set_thread_def)
next
  case (exit i)
  with assms(1) busy_update[of i "threads s" "WExited"] show ?thesis
    by (simp add: inv_count_def set_thread_def)
qed

lemma worker_frame:
  assumes "step C a s = Some s'" and "a \<noteq> MainStep"
  shows "main_pc s' = main_pc s \<and> prompts s' = prompts s \<and> infile s' = infile s \<and>
         length (threads s') = length (threads s) \<and> reported s' = reported s \<and>
         unfinished_tasks s' \<le> unfinished_tasks s \<and> threads s \<noteq> []"
  using assms
  by (cases rule: step_cases) (auto simp: set_thread_def task_done_def)

lemma inv_pre_step:
  assumes "inv_pre f old s" and "step C a s = Some s'"
  shows "inv_pre f old s'"
proof (cases "a = MainStep")
  case True
  with assms(2) have "main_step C (main_pc s) s = Some s'" by simp
  then show ?thesis
    using assms(1)
    by (cases rule: main_cases) (auto simp: inv_pre_def put_def eq_commute[of "Some _" "infile _"])
next
  case False
  from worker_frame[OF assms(2) False] assms(1) show ?thesis
    by (auto simp: inv_pre_def)
qed

lemma inv_join_step:
  assumes "inv_join s" and "step C a s = Some s'"
  shows "inv_join s'"
proof (cases "a = MainStep")
  case True
  with assms(2) have "main_step C (main_pc s) s = Some s'" by simp
  then show ?thesis
    using assms(1) by (cases rule: main_cases) (auto simp: inv_join_def put_def)
next
  case False
  from worker_frame[OF assms(2) False] assms(1) show ?thesis
    by (auto simp: inv_join_def)
qed

lemma inv_pool_step:
  assumes "inv_pool C s" and "inv_pre f old s" and "step C a s = Some s'"
  shows "inv_pool C s'"
proof (cases "a = MainStep")
  case True
  with assms(3) have "main_step C (main_pc s) s = Some s'" by simp
  then show ?thesis
    using assms(1,2) by (cases rule: main_cases) (auto simp: inv_pool_def inv_pre_def put_def)
next
  case False
  from worker_frame[OF assms(3) False] assms(1) show ?thesis
    by (auto simp: inv_pool_def)
qed

lemma in_block_update:
  "i < length ts \<Longrightarrow>
   sum_list (map in_block (ts[i := w])) + in_block (ts ! i)
     = sum_list (map in_block ts) + in_block w"
  by (rule sum_list_map_update)

lemma inv_lock_step:
  assumes "inv_lock s" and "step C a s = Some s'"
  shows "inv_lock s'"
  using assms(2)
proof (cases rule: step_cases)
  case main
  from main(2) show ?thesis
    using assms(1) by (cases rule: main_cases) (simp_all add: inv_lock_def put_def)
next
  case (get i x q)
  with assms(1) in_block_update[of i "threads s" "WGot x"] show ?thesis
    by (simp add: inv_lock_def set_thread_def del: sum_list_eq_0_iff)
next
  case (call i p start_dt start_time outcome end_dt end_time)
  with assms(1) in_block_update[of i "threads s"
      "WResult (build_result p start_dt start_time outcome end_dt end_time)"]
  show ?thesis
    by (simp add: inv_lock_def set_thread_def del: sum_list_eq_0_iff)
next
  case (acquire i r)
  with assms(1) in_block_update[of i "threads s" "WLocked r"] show ?thesis
    by (simp add: inv_lock_def set_thread_def del: sum_list_eq_0_iff)
next
  case (write_ok i r)
  with assms(1) in_block_update[of i "threads s" "WWritten"] show ?thesis
    by (simp add: inv_lock_def set_thread_def del: sum_list_eq_0_iff)
next
  case (write_fail i r)
  with assms(1) in_block_update[of i "threads s" "WCrashed (Some r)"] show ?thesis
    by (simp add: inv_lock_def set_thread_def del: sum_list_eq_0_iff split: if_splits)
next
  case (release i)
  with assms(1) in_block_update[of i "threads s" "WSent"] show ?thesis
    by (simp add: inv_lock_def set_thread_def del: sum_list_eq_0_iff split: if_splits)
next
  case (done_marker i)
  with assms(1) in_block_update[of i "threads s" "WMarkerDone"]
    in_block_update[of i "threads s" "WCrashed None"] show ?thesis
    by (simp add: inv_lock_def set_thread_def task_done_def del: sum_list_eq_0_iff)
next
  case (done_item i)
  with assms(1) in_block_update[of i "threads s" "WGet"]
    in_block_update[of i "threads s" "WCrashed None"] show ?thesis
    by (simp add: inv_lock_def set_thread_def task_done_def del: sum_list_eq_0_iff)
next
  case (exit i)
  with assms(1) in_block_update[of i "threads s" "WExited"] show ?thesis
    by (simp add: inv_lock_def set_thread_def del: sum_list_eq_0_iff)
qed

lemma took_marker_update:
  "i < length ts \<Longrightarrow>
   sum_list (map took_marker (ts[i := w])) + took_marker (ts ! i)
     = sum_list (map took_marker ts) + took_marker w"
  by (rule sum_list_map_update)

lemma inv_markers_step:
  assumes "inv_markers s" and "inv_count s" and "step C a s = Some s'"
  shows "inv_markers s'"
  using assms(3)
proof (cases rule: step_cases)
  case main
  from main(2) show ?thesis
    using assms(1)
    by (cases rule: main_cases) (simp_all add: inv_markers_def markers_put_def put_def)
next
  case (get i x q)
  with assms(1) took_marker_update[of i "threads s" "WGot x"] show ?thesis
    by (cases x) (simp_all add: inv_markers_def markers_put_def set_thread_def)
next
  case (call i p start_dt start_time outcome end_dt end_time)
  with assms(1) took_marker_update[of i "threads s"
      "WResult (build_result p start_dt start_time outcome end_dt end_time)"]
  show ?thesis
    by (simp add: inv_markers_def markers_put_def set_thread_def)
next
  case (acquire i r)
  with assms(1) took_marker_update[of i "threads s" "WLocked r"] show ?thesis
    by (simp add: inv_markers_def markers_put_def set_thread_def)
next
  case (write_ok i r)
  with assms(1) took_marker_update[of i "threads s" "WWritten"] show ?thesis
    by (simp add: inv_markers_def markers_put_def set_thread_def)
next
  case (write_fail i r)
  with assms(1) took_marker_update[of i "threads s" "WCrashed (Some r)"] show ?thesis
    by (simp add: inv_markers_def markers_put_def set_thread_def)
next
  case (release i)
  with assms(1) took_marker_update[of i "threads s" "WSent"] show ?thesis
    by (simp add: inv_markers_def markers_put_def set_thread_def)
next
  case (done_marker i)
  then have "s' = set_thread i WMarkerDone (s\<lparr>unfinished_tasks := unfinished_tasks s - 1\<rparr>)"
    using task_done_eq[OF assms(2), of i WMarkerDone] by simp
  with done_marker(2,3) assms(1) took_marker_update[of i "threads s" "WMarkerDone"] show ?thesis
    by (simp add: inv_markers_def markers_put_def set_thread_def)
next
  case (done_item i)
  then have "s' = set_thread i WGet (s\<lparr>unfinished_tasks := unfinished_tasks s - 1\<rparr>)"
    using task_done_eq[OF assms(2), of i WGet] by simp
  with done_item(2,3) assms(1) took_marker_update[of i "threads s" "WGet"] show ?thesis
    by (simp add: inv_markers_def markers_put_def set_thread_def)
next
  case (exit i)
  with assms(1) took_marker_update[of i "threads s" "WExited"] show ?thesis
    by (simp add: inv_markers_def markers_put_def set_thread_def)
qed

lemma inv_items_step:
  assumes "inv_items s" and "inv_pre f old s" and "inv_count s" and "step C a s = Some s'"
  shows "inv_items s'"
  using assms(4)
proof (cases rule: step_cases)
  case main
  from main(2) show ?thesis
    using assms(1,2)
    by (cases rule: main_cases) (simp_all add: inv_items_def inv_pre_def put_def)
next
  case (get i x q)
  with assms(1) held_update[of i "threads s" "WGot x"] show ?thesis
    by (simp add: inv_items_def set_thread_def ac_simps)
next
  case (call i p start_dt start_time outcome end_dt end_time)
  with assms(1) held_update[of i "threads s"
      "WResult (build_result p start_dt start_time outcome end_dt end_time)"]
  show ?thesis
    by (simp add: inv_items_def set_thread_def)
next
  case (acquire i r)
  with assms(1) held_update[of i "threads s" "WLocked r"] show ?thesis
    by (simp add: inv_items_def set_thread_def)
next
  case (write_ok i r)
  with assms(1) held_update[of i "threads s" "WWritten", symmetric] show ?thesis
    by (simp add: inv_items_def set_thread_def ac_simps)
next
  case (write_fail i r)
  with assms(1) held_update[of i "threads s" "WCrashed (Some r)"] show ?thesis
    by (simp add: inv_items_def set_thread_def)
next
  case (release i)
  with assms(1) held_update[of i "threads s" "WSent"] show ?thesis
    by (simp add: inv_items_def set_thread_def)
next
  case (done_marker i)
  then have "s' = set_thread i WMarkerDone (s\<lparr>unfinished_tasks := unfinished_tasks s - 1\<rparr>)"
    using task_done_eq[OF assms(3), of i WMarkerDone] by simp
  with done_marker(2,3) assms(1) held_update[of i "threads s" "WMarkerDone"] show ?thesis
    by (simp add: inv_items_def set_thread_def)
next
  case (done_item i)
  then have "s' = set_thread i WGet (s\<lparr>unfinished_tasks := unfinished_tasks s - 1\<rparr>)"
    using task_done_eq[OF assms(3), of i WGet] by simp
  with done_item(2,3) assms(1) held_update[of i "threads s" "WGet"] show ?thesis
    by (simp add: inv_items_def set_thread_def)
next
  case (exit i)
  with assms(1) held_update[of i "threads s" "WExited"] show ?thesis
    by (simp add: inv_items_def set_thread_def)
qed

lemma invs_init: "invs C f old (init f old)"
  by (simp add: invs_def init_def inv_pre_def inv_count_def inv_items_def inv_join_def
      inv_markers_def markers_put_def inv_pool_def inv_lock_def)

lemma invs_step:
  assumes "invs C f old s" and "step C a s = Some s'"
  shows "invs C f old s'"
  using assms inv_pre_step[of f old s C a s'] inv_count_step[of s C a s']
    inv_items_step[of s f old C a s'] inv_join_step[of s C a s']
    inv_markers_step[of s C a s'] inv_pool_step[of C s f old a s'] inv_lock_step[of s C a s']
  by (simp add: invs_def)

lemma invs_run:
  "invs C f old s \<Longrightarrow> run C sched s = Some s' \<Longrightarrow> invs C f old s'"
proof (induction sched arbitrary: s)
  case Nil
  then show ?case by simp
next
  case (Cons a sched)
  from Cons.prems(2) obtain t where t: "step C a s = Some t" and r: "run C sched t = Some s'"
    by (auto split: option.splits)
  from Cons.IH[OF invs_step[OF Cons.prems(1) t] r] show ?case .
qed

lemma reachable_invs:
  "run C sched (init f old) = Some s \<Longrightarrow> invs C f old s"
  using invs_run[OF invs_init] .

lemma idle_holds_nothing:
  "sum_list (map busy ts) = 0 \<Longrightarrow> sum_list (map held ts) = {#}"
proof (induction ts)
  case Nil
  then show ?case by simp
next
  case (Cons w ts)
  then have "busy w = 0" and "sum_list (map busy ts) = 0" by simp_all
  with Cons.IH show ?case by (cases w) simp_all
qed

lemma took_marker_le: "sum_list (map took_marker ts) \<le> length ts"
proof (induction ts)
  case Nil
  then show ?case by simp
next
  case (Cons w ts)
  have "took_marker w \<le> 1" by (cases w rule: took_marker.cases) simp_all
  with Cons show ?case by simp
qed

lemma all_markers_done:
  "sum_list (map took_marker ts) = length ts \<Longrightarrow> sum_list (map busy ts) = 0 \<Longrightarrow>
   list_all marker_done ts"
proof (induction ts)
  case Nil
  then show ?case by simp
next
  case (Cons w ts)
  from Cons.prems(2) have b: "busy w = 0" and bs: "sum_list (map busy ts) = 0" by simp_all
  have "took_marker w \<le> 1" by (cases w rule: took_marker.cases) simp_all
  with Cons.prems(1) took_marker_le[of ts]
  have t: "took_marker w = 1" and ts: "sum_list (map took_marker ts) = length ts" by simp_all
  from b t have "marker_done w" by (cases w rule: took_marker.cases) simp_all
  with Cons.IH[OF ts bs] show ?case by simp
qed

lemma finished_idle:
  assumes "invs C f old s" and "main_pc s = MPrint \<or> main_pc s = MFinished"
  shows "unfinished_tasks s = 0 \<and> queue s = [] \<and> sum_list (map busy (threads s)) = 0"
  using assms by (auto simp: invs_def inv_join_def inv_count_def)

lemma finished_items:
  assumes "invs C (Some ls) old s" and "main_pc s = MFinished"
  shows "mset (map prompt (outfile s)) = mset (read_prompts ls)"
proof -
  from finished_idle[OF assms(1)] assms(2)
  have q: "queue s = []" and b: "sum_list (map busy (threads s)) = 0" by simp_all
  from assms have p: "prompts s = read_prompts ls" by (auto simp: invs_def inv_pre_def)
  from assms have "inv_items s" by (simp add: invs_def)
  with assms(2) q idle_holds_nothing[OF b] p show ?thesis
    by (simp add: inv_items_def)
qed

lemma run_append:
  "run C (xs @ ys) s = (case run C xs s of None \<Rightarrow> None | Some t \<Rightarrow> run C ys t)"
  by (induction xs arbitrary: s) (auto split: option.splits)

lemma crashed_step:
  assumes "step C a s = Some s'" and "i < length (threads s)" and "threads s ! i = WCrashed x"
  shows "i < length (threads s') \<and> threads s' ! i = WCrashed x"
  using assms(1)
proof (cases rule: step_cases)
  case main
  from main(2) show ?thesis
    using assms(2,3) by (cases rule: main_cases) (simp_all add: put_def nth_append)
qed (use assms(2,3) in \<open>auto simp: set_thread_def task_done_def nth_list_update\<close>)

lemma crashed_run:
  "run C sched s = Some s' \<Longrightarrow> i < length (threads s) \<Longrightarrow> threads s ! i = WCrashed x \<Longrightarrow>
   i < length (threads s') \<and> threads s' ! i = WCrashed x"
proof (induction sched arbitrary: s)
  case Nil
  then show ?case by simp
next
  case (Cons a sched)
  from Cons.prems(1) obtain t where t: "step C a s = Some t" and r: "run C sched t = Some s'"
    by (auto split: option.splits)
  from crashed_step[OF t Cons.prems(2,3)] Cons.IH[OF r] show ?case by simp
qed

lemma size_held_le:
  "i < length ts \<Longrightarrow> size (held (ts ! i)) \<le> size (sum_list (map held ts))"
proof (induction ts arbitrary: i)
  case Nil
  then show ?case by simp
next
  case (Cons w ts)
  then show ?case by (cases i) (simp_all add: le_SucI trans_le_add2)
qed

lemma threads_started:
  assumes "inv_pre f old s" and "threads s \<noteq> []"
  shows "truncated (main_pc s)"
  using assms by (auto simp: inv_pre_def)

lemma outfile_grows_step:
  assumes "truncated (main_pc s)" and "step C a s = Some s'"
  shows "truncated (main_pc s') \<and> prefix (outfile s) (outfile s')"
  using assms(2)
proof (cases rule: step_cases)
  case main
  from main(2) show ?thesis
    using assms(1) by (cases rule: main_cases) (simp_all add: put_def)
qed (use assms(1) in \<open>auto simp: set_thread_def task_done_def\<close>)

lemma outfile_grows_run:
  "truncated (main_pc s) \<Longrightarrow> run C sched s = Some s' \<Longrightarrow>
   truncated (main_pc s') \<and> prefix (outfile s) (outfile s')"
proof (induction sched arbitrary: s)
  case Nil
  then show ?case by simp
next
  case (Cons a sched)
  from Cons.prems(2) obtain t where t: "step C a s = Some t" and r: "run C sched t = Some s'"
    by (auto split: option.splits)
  from outfile_grows_step[OF Cons.prems(1) t]
  have st: "truncated (main_pc t)" and p: "prefix (outfile s) (outfile t)" by simp_all
  from Cons.IH[OF st r] p show ?case by (auto intro: prefix_order.trans)
qed

text \<open>Every input has a run that completes, when at least one thread is configured.\<close>

lemma run_append_Some:
  "run C xs s = Some t \<Longrightarrow> run C ys t = Some u \<Longrightarrow> run C (xs @ ys) s = Some u"
  by (simp add: run_append)

lemma start_phase:
  "shape s = (MStart n, ps, ts, q, u, l) \<Longrightarrow>
   \<exists>s'. run C (replicate n MainStep) s = Some s' \<and>
        shape s' = (MStart 0, ps, ts @ replicate n WGet, q, u, l)"
proof (induction n arbitrary: s ts)
  case 0
  then show ?case by simp
next
  case (Suc n)
  let ?t = "s\<lparr>threads := threads s @ [WGet], main_pc := MStart n\<rparr>"
  from Suc.prems have st: "step C MainStep s = Some ?t" by (simp add: shape_def)
  from Suc.prems have "shape ?t = (MStart n, ps, ts @ [WGet], q, u, l)"
    by (simp add: shape_def)
  from Suc.IH[OF this] obtain s' where "run C (replicate n MainStep) ?t = Some s'"
    and "shape s' = (MStart 0, ps, (ts @ [WGet]) @ replicate n WGet, q, u, l)" by blast
  with st show ?case by (simp add: replicate_app_Cons_same)
qed

lemma enq_phase:
  "shape s = (MEnq qs, ps, ts, q, u, l) \<Longrightarrow>
   \<exists>s'. run C (replicate (length qs) MainStep) s = Some s' \<and>
        shape s' = (MEnq [], ps, ts, q @ map Some qs, u + length qs, l)"
proof (induction qs arbitrary: s q u)
  case Nil
  then show ?case by simp
next
  case (Cons p qs)
  let ?t = "(put (Some p) s)\<lparr>main_pc := MEnq qs\<rparr>"
  from Cons.prems have st: "step C MainStep s = Some ?t" by (simp add: shape_def)
  from Cons.prems have "shape ?t = (MEnq qs, ps, ts, q @ [Some p], Suc u, l)"
    by (simp add: shape_def put_def)
  from Cons.IH[OF this] obtain s' where "run C (replicate (length qs) MainStep) ?t = Some s'"
    and "shape s' = (MEnq [], ps, ts, (q @ [Some p]) @ map Some qs, Suc u + length qs, l)"
    by blast
  with st show ?case by simp
qed

lemma mark_phase:
  "shape s = (MMark n, ps, ts, q, u, l) \<Longrightarrow>
   \<exists>s'. run C (replicate n MainStep) s = Some s' \<and>
        shape s' = (MMark 0, ps, ts, q @ replicate n None, u + n, l)"
proof (induction n arbitrary: s q u)
  case 0
  then show ?case by simp
next
  case (Suc n)
  let ?t = "(put None s)\<lparr>main_pc := MMark n\<rparr>"
  from Suc.prems have st: "step C MainStep s = Some ?t" by (simp add: shape_def)
  from Suc.prems have "shape ?t = (MMark n, ps, ts, q @ [None], Suc u, l)"
    by (simp add: shape_def put_def)
  from Suc.IH[OF this] obtain s' where "run C (replicate n MainStep) ?t = Some s'"
    and "shape s' = (MMark 0, ps, ts, (q @ [None]) @ replicate n None, Suc u + n, l)"
    by blast
  with st show ?case by (simp add: replicate_app_Cons_same)
qed

lemma serve_one:
  assumes "shape s = (pc, ps, WGet # ts, Some p # q, Suc u, False)"
  shows "\<exists>s'. run C (serve 0) s = Some s' \<and> shape s' = (pc, ps, WGet # ts, q, u, False)"
  using assms
  by (simp add: shape_def serve_def thread_at_def set_thread_def task_done_def)

lemma serve_phase:
  "shape s = (pc, ps, WGet # ts, map Some qs @ q, length qs + u, False) \<Longrightarrow>
   \<exists>s'. run C (concat (replicate (length qs) (serve 0))) s = Some s' \<and>
        shape s' = (pc, ps, WGet # ts, q, u, False)"
proof (induction qs arbitrary: s)
  case Nil
  then show ?case by simp
next
  case (Cons p qs)
  then have "shape s = (pc, ps, WGet # ts, Some p # (map Some qs @ q), Suc (length qs + u), False)"
    by simp
  from serve_one[OF this] obtain t where t: "run C (serve 0) s = Some t"
    and "shape t = (pc, ps, WGet # ts, map Some qs @ q, length qs + u, False)" by blast
  from Cons.IH[OF this(2)] obtain s' where
    "run C (concat (replicate (length qs) (serve 0))) t = Some s'"
    and "shape s' = (pc, ps, WGet # ts, q, u, False)" by blast
  with run_append_Some[OF t this(1)] show ?case by auto
qed

lemma retire_one:
  assumes "shape s = (pc, ps, gone @ WGet # ts, None # q, Suc u, l)"
  shows "\<exists>s'. run C (retire (length gone)) s = Some s' \<and>
              shape s' = (pc, ps, gone @ WExited # ts, q, u, l)"
  using assms
  by (simp add: shape_def retire_def thread_at_def set_thread_def task_done_def)

lemma retire_phase:
  "shape s = (pc, ps, gone @ replicate n WGet, replicate n None, n, l) \<Longrightarrow>
   \<exists>s'. run C (concat (map retire [length gone..<length gone + n])) s = Some s' \<and>
        shape s' = (pc, ps, gone @ replicate n WExited, [], 0, l)"
proof (induction n arbitrary: s gone)
  case 0
  then show ?case by simp
next
  case (Suc n)
  then have "shape s = (pc, ps, gone @ WGet # replicate n WGet, None # replicate n None, Suc n, l)"
    by simp
  from retire_one[OF this] obtain t where t: "run C (retire (length gone)) s = Some t"
    and "shape t = (pc, ps, (gone @ [WExited]) @ replicate n WGet, replicate n None, n, l)"
    by auto
  from Suc.IH[OF this(2)] obtain s' where
    r: "run C (concat (map retire [length (gone @ [WExited])..<length (gone @ [WExited]) + n])) t
       = Some s'"
    and sh: "shape s' = (pc, ps, (gone @ [WExited]) @ replicate n WExited, [], 0, l)" by blast
  have e: "concat (map retire [length gone..<length gone + Suc n])
             = retire (length gone) @
               concat (map retire [length (gone @ [WExited])..<length (gone @ [WExited]) + n])"
    by (simp add: upt_conv_Cons del: upt_Suc)
  from run_append_Some[OF t r]
  have "run C (concat (map retire [length gone..<length gone + Suc n])) s = Some s'"
    by (simp only: e)
  moreover from sh have "shape s' = (pc, ps, gone @ replicate (Suc n) WExited, [], 0, l)"
    by simp
  ultimately show ?case by blast
qed

lemma completing_run:
  assumes "0 < C \<or> read_prompts ls = []"
  shows "\<exists>s. run C (sequential (min C (length (read_prompts ls))) (length (read_prompts ls)))
                (init (Some ls) old) = Some s \<and> main_pc s = MFinished"
proof -
  define ps where "ps = read_prompts ls"
  define W where "W = min C (length ps)"
  let ?s0 = "init (Some ls) old"
  obtain s1 where r1: "run C [MainStep, MainStep] ?s0 = Some s1"
    and h1: "shape s1 = (MStart W, ps, [], [], 0, False)"
    by (simp add: init_def shape_def ps_def W_def)
  from start_phase[OF h1] obtain s2 where r2: "run C (replicate W MainStep) s1 = Some s2"
    and h2: "shape s2 = (MStart 0, ps, replicate W WGet, [], 0, False)" by auto
  obtain s3 where r3: "run C [MainStep] s2 = Some s3"
    and h3: "shape s3 = (MEnq ps, ps, replicate W WGet, [], 0, False)"
    using h2 by (simp add: shape_def)
  from enq_phase[OF h3] obtain s4 where r4: "run C (replicate (length ps) MainStep) s3 = Some s4"
    and h4: "shape s4 = (MEnq [], ps, replicate W WGet, map Some ps, length ps, False)" by auto
  obtain s5 where r5: "run C [MainStep] s4 = Some s5"
    and h5: "shape s5 = (MMark W, ps, replicate W WGet, map Some ps, length ps, False)"
    using h4 by (simp add: shape_def)
  from mark_phase[OF h5] obtain s6 where r6: "run C (replicate W MainStep) s5 = Some s6"
    and h6: "shape s6 = (MMark 0, ps, replicate W WGet, map Some ps @ replicate W None,
                         length ps + W, False)" by auto
  obtain s7 where r7: "run C [MainStep] s6 = Some s7"
    and h7: "shape s7 = (MJoin, ps, replicate W WGet, map Some ps @ replicate W None,
                         length ps + W, False)"
    using h6 by (simp add: shape_def)
  have "\<exists>s8. run C (concat (replicate (length ps) (serve 0))) s7 = Some s8 \<and>
         shape s8 = (MJoin, ps, replicate W WGet, replicate W None, W, False)"
  proof (cases "ps = []")
    case True
    with h7 show ?thesis by simp
  next
    case False
    with assms have "0 < W" by (simp add: W_def ps_def)
    then obtain V where V: "W = Suc V" by (cases W) simp_all
    from h7 V have "shape s7 = (MJoin, ps, WGet # replicate V WGet,
                      map Some ps @ replicate W None, length ps + W, False)" by simp
    from serve_phase[OF this] V show ?thesis by simp
  qed
  then obtain s8 where r8: "run C (concat (replicate (length ps) (serve 0))) s7 = Some s8"
    and h8: "shape s8 = (MJoin, ps, replicate W WGet, replicate W None, W, False)" by blast
  from h8 have "shape s8 = (MJoin, ps, [] @ replicate W WGet, replicate W None, W, False)"
    by simp
  from retire_phase[OF this] obtain s9 where
    r9: "run C (concat (map retire [0..<W])) s8 = Some s9"
    and h9: "shape s9 = (MJoin, ps, replicate W WExited, [], 0, False)" by auto
  obtain s10 where r10: "run C [MainStep, MainStep] s9 = Some s10"
    and h10: "main_pc s10 = MFinished"
    using h9 by (simp add: shape_def)
  note run_append_Some[OF r1 run_append_Some[OF r2 run_append_Some[OF r3
        run_append_Some[OF r4 run_append_Some[OF r5 run_append_Some[OF r6
        run_append_Some[OF r7 run_append_Some[OF r8 run_append_Some[OF r9 r10]]]]]]]]]
  with h10 show ?thesis
    unfolding sequential_def ps_def[symmetric] W_def[symmetric] by blast
qed

section \<open>The records of failed calls\<close>

text \<open>
  C6, as the specification states it, fails. A call that takes 301 seconds, longer
  than the configured timeout, and returns status 200 with the JSON body \<open>{}\<close> gives
  a record with the elapsed time in \<open>time_seconds\<close> and the parsed body in
  \<open>response\<close>. A call that runs as long and ends in a timeout that \<open>requests\<close>
  raises as another exception gives a record with \<open>ERROR\<close> in \<open>time_seconds\<close> and
  the text of the exception in \<open>response\<close>.
\<close>

theorem slow_call_counterexample:
  "request_timeout < 301 - 0 \<and>
   time_seconds (build_result (codes ''q'') t_sent 0 (Returned ok_response) t_back 301)
     = PFloat 301 \<and>
   response (build_result (codes ''q'') t_sent 0 (Returned ok_response) t_back 301)
     = PDict [] \<and>
   time_seconds (build_result (codes ''q'') t_sent 0 (RaisedOther ''Read timed out.'') t_back 301)
     = PStr ''ERROR'' \<and>
   response (build_result (codes ''q'') t_sent 0 (RaisedOther ''Read timed out.'') t_back 301)
     = PStr ''Read timed out.'' \<and>
   PFloat 301 \<noteq> PStr ''TIMEOUT'' \<and> PStr ''ERROR'' \<noteq> PStr ''TIMEOUT''"
  by (simp add: request_timeout_def ok_response_def round3_def round_half_even_def)

lemma dict_get_Some_dict:
  "dict_get data k d = Some v \<Longrightarrow> data \<noteq> PNone"
  by (cases data) simp_all

text \<open>
  C6, amended. When the call of line 26 raises \<open>requests.exceptions.Timeout\<close>, the
  record has the string \<open>TIMEOUT\<close> in \<open>time_seconds\<close> and \<open>None\<close> (JSON
  \<open>null\<close>) in \<open>response\<close>, whatever the clocks read; and no call that ends
  otherwise gets this string or an empty \<open>response\<close>, however long it took.
\<close>

theorem timeout_record:
  "(outcome = RaisedTimeout \<longrightarrow>
      time_seconds (build_result p start_dt start_time outcome end_dt end_time)
        = PStr ''TIMEOUT'' \<and>
      response (build_result p start_dt start_time outcome end_dt end_time) = PNone) \<and>
   (outcome \<noteq> RaisedTimeout \<longrightarrow>
      time_seconds (build_result p start_dt start_time outcome end_dt end_time)
        \<noteq> PStr ''TIMEOUT'' \<and>
      response (build_result p start_dt start_time outcome end_dt end_time) \<noteq> PNone)"
proof (cases outcome)
  case (Returned resp)
  then show ?thesis
    by (auto simp: error_result_def dest: dict_get_Some_dict split: option.splits)
next
  case RaisedTimeout
  then show ?thesis by simp
next
  case (RaisedOther e)
  then show ?thesis by simp
qed

theorem timeout_record_witness:
  "time_seconds (build_result (codes ''q'') t_sent 0 RaisedTimeout t_back request_timeout)
     = PStr ''TIMEOUT'' \<and>
   response (build_result (codes ''q'') t_sent 0 RaisedTimeout t_back request_timeout)
     = PNone \<and>
   Returned ok_response \<noteq> RaisedTimeout \<and>
   time_seconds (build_result (codes ''q'') t_sent 0 (Returned ok_response) t_back 301)
     \<noteq> PStr ''TIMEOUT''"
  using timeout_record
          [of RaisedTimeout "codes ''q''" t_sent 0 t_back request_timeout]
        timeout_record
          [of "Returned ok_response" "codes ''q''" t_sent 0 t_back 301]
  by simp

text \<open>
  C10. The record of a timeout has the string \<open>TIMEOUT\<close> in \<open>output_tokens\<close>; the
  record of a response with a status other than 200, of a body that does not parse and
  of any other exception has the string \<open>ERROR\<close> there, which is a different value. So
  among the records of failed calls, \<open>output_tokens\<close> alone tells the timeouts.
\<close>

theorem timeout_metric_sentinel:
  "output_tokens (build_result p start_dt start_time RaisedTimeout end_dt end_time)
     = PStr ''TIMEOUT'' \<and>
   (is_http_error outcome \<or> is_parse_error outcome \<or> is_transport_error outcome \<longrightarrow>
      output_tokens (build_result p start_dt start_time outcome end_dt end_time)
        = PStr ''ERROR'' \<and>
      output_tokens (build_result p start_dt start_time outcome end_dt end_time)
        \<noteq> PStr ''TIMEOUT'')"
proof (cases outcome)
  case (Returned resp)
  then show ?thesis
    by (auto simp: error_result_def split: option.splits)
next
  case RaisedTimeout
  then show ?thesis by simp
next
  case (RaisedOther e)
  then show ?thesis by simp
qed

theorem timeout_metric_sentinel_witness:
  "is_transport_error (RaisedOther ''Connection refused'') \<and>
   output_tokens
     (build_result (codes ''q'')
        \<lparr>dt_year = 2025, dt_month = 3, dt_day = 9, dt_hour = 7, dt_minute = 5, dt_second = 1\<rparr> 10
        (RaisedOther ''Connection refused'')
        \<lparr>dt_year = 2025, dt_month = 3, dt_day = 9, dt_hour = 7, dt_minute = 5, dt_second = 2\<rparr> 11)
     = PStr ''ERROR''"
  using timeout_metric_sentinel
    [of "codes ''q''"
        "\<lparr>dt_year = 2025, dt_month = 3, dt_day = 9, dt_hour = 7, dt_minute = 5, dt_second = 1\<rparr>"
        10
        "\<lparr>dt_year = 2025, dt_month = 3, dt_day = 9, dt_hour = 7, dt_minute = 5, dt_second = 2\<rparr>"
        11 "RaisedOther ''Connection refused''"]
  by simp

text \<open>
  C2, as the specification states it, fails: a response with status 500 that arrives
  two seconds after the call started gives a record whose \<open>time_seconds\<close> is the
  string \<open>ERROR\<close>, not the elapsed time; so does a response with status 200 whose body
  is not JSON.
\<close>

theorem error_elapsed_counterexample:
  "is_http_error (Returned \<lparr>status_code = 500, resp_text = ''overloaded'', resp_json = None\<rparr>) \<and>
   time_seconds
     (build_result (codes ''q'')
        \<lparr>dt_year = 2025, dt_month = 3, dt_day = 9, dt_hour = 7, dt_minute = 5, dt_second = 1\<rparr> 10
        (Returned \<lparr>status_code = 500, resp_text = ''overloaded'', resp_json = None\<rparr>)
        \<lparr>dt_year = 2025, dt_month = 3, dt_day = 9, dt_hour = 7, dt_minute = 5, dt_second = 3\<rparr> 12)
     = PStr ''ERROR'' \<and>
   is_parse_error (Returned \<lparr>status_code = 200, resp_text = ''<html>'', resp_json = None\<rparr>) \<and>
   time_seconds
     (build_result (codes ''q'')
        \<lparr>dt_year = 2025, dt_month = 3, dt_day = 9, dt_hour = 7, dt_minute = 5, dt_second = 1\<rparr> 10
        (Returned \<lparr>status_code = 200, resp_text = ''<html>'', resp_json = None\<rparr>)
        \<lparr>dt_year = 2025, dt_month = 3, dt_day = 9, dt_hour = 7, dt_minute = 5, dt_second = 3\<rparr> 12)
     = PStr ''ERROR'' \<and>
   PStr ''ERROR'' \<noteq> PFloat (round3 (12 - 10))"
  by (simp add: error_result_def)

text \<open>
  C2, amended. For a response with a status other than 200, and for a response with
  status 200 whose body does not parse into a dict, \<open>time_seconds\<close> and
  \<open>output_tokens\<close> are the string \<open>ERROR\<close> and \<open>response\<close> is the text of the
  body; the elapsed time of line 28 is not recorded.
\<close>

theorem error_record_fields:
  assumes "is_http_error outcome \<or> is_parse_error outcome"
  shows "time_seconds (build_result p start_dt start_time outcome end_dt end_time)
           = PStr ''ERROR'' \<and>
         output_tokens (build_result p start_dt start_time outcome end_dt end_time)
           = PStr ''ERROR'' \<and>
         (\<exists>resp. outcome = Returned resp \<and>
            response (build_result p start_dt start_time outcome end_dt end_time)
              = PStr (resp_text resp))"
proof (cases outcome)
  case (Returned resp)
  with assms show ?thesis
    by (auto simp: error_result_def split: option.splits)
next
  case RaisedTimeout
  with assms show ?thesis by simp
next
  case (RaisedOther e)
  with assms show ?thesis by simp
qed

theorem error_record_fields_witness:
  "is_parse_error (Returned \<lparr>status_code = 200, resp_text = ''[1, 2]'',
                             resp_json = Some (PList [PInt 1, PInt 2])\<rparr>) \<and>
   time_seconds
     (build_result (codes ''q'')
        \<lparr>dt_year = 2025, dt_month = 3, dt_day = 9, dt_hour = 7, dt_minute = 5, dt_second = 1\<rparr> 10
        (Returned \<lparr>status_code = 200, resp_text = ''[1, 2]'',
                   resp_json = Some (PList [PInt 1, PInt 2])\<rparr>)
        \<lparr>dt_year = 2025, dt_month = 3, dt_day = 9, dt_hour = 7, dt_minute = 5, dt_second = 3\<rparr> 12)
     = PStr ''ERROR''"
  using error_record_fields
    [of "Returned \<lparr>status_code = 200, resp_text = ''[1, 2]'',
                   resp_json = Some (PList [PInt 1, PInt 2])\<rparr>"
        "codes ''q''"
        "\<lparr>dt_year = 2025, dt_month = 3, dt_day = 9, dt_hour = 7, dt_minute = 5, dt_second = 1\<rparr>"
        10
        "\<lparr>dt_year = 2025, dt_month = 3, dt_day = 9, dt_hour = 7, dt_minute = 5, dt_second = 3\<rparr>"
        12]
  by simp

section \<open>Runs of the worker pool\<close>

text \<open>
  C1. At every moment of a run at most one worker is inside the \<open>with file_lock\<close>
  block, so lines are written one at a time. When the main thread has returned, the
  prompts of the records in the output file are exactly the prompts read from the
  input file, each as often as it occurs there: the log has one record for every work
  item and \<open>N\<close> records in all, whatever the schedule, the answers of the endpoint and
  the configured number of threads. Lemma \<open>completing_run\<close> above gives a run that
  completes for every input.
\<close>

theorem every_item_logged_once:
  assumes "run C sched (init (Some ls) old) = Some s"
  shows "sum_list (map in_block (threads s)) \<le> 1 \<and>
         (main_pc s = MFinished \<longrightarrow>
            mset (map prompt (outfile s)) = mset (read_prompts ls) \<and>
            length (outfile s) = length (read_prompts ls))"
proof -
  note i = reachable_invs[OF assms]
  from i have "sum_list (map in_block (threads s)) \<le> 1"
    by (simp add: invs_def inv_lock_def)
  moreover have "mset (map prompt (outfile s)) = mset (read_prompts ls) \<and>
            length (outfile s) = length (read_prompts ls)" if "main_pc s = MFinished"
  proof -
    from finished_items[OF i that]
    have m: "mset (map prompt (outfile s)) = mset (read_prompts ls)" .
    from mset_eq_length[OF m] have "length (outfile s) = length (read_prompts ls)"
      by simp
    with m show ?thesis by simp
  qed
  ultimately show ?thesis by blast
qed

theorem every_item_logged_once_witness:
  "run MAX_THREADS (sched_items_done @ sched_drain) (init (Some two_lines) stale_log)
     = Some state_finished \<and>
   main_pc state_finished = MFinished \<and>
   mset (map prompt (outfile state_finished)) = mset (read_prompts two_lines) \<and>
   length (outfile state_finished) = length (read_prompts two_lines)"
proof -
  have r: "run MAX_THREADS (sched_items_done @ sched_drain) (init (Some two_lines) stale_log)
             = Some state_finished"
    by (simp add: run_defs)
  have f: "main_pc state_finished = MFinished"
    by (simp add: state_finished_def)
  from every_item_logged_once[OF r] r f show ?thesis by simp
qed





text \<open>
  C8. Until the main thread has run line 101 the output file has its prior content and
  no worker exists; line 101 leaves it empty. From then on every later content of the
  file extends the earlier one, so nothing is removed again. When the main thread has returned the file has
  \<open>N\<close> records, whatever it held before the run.
\<close>

theorem truncate_then_append:
  assumes "run C before (init (Some ls) old) = Some sm" and "run C after sm = Some s"
  shows "(\<not> truncated (main_pc sm) \<longrightarrow> outfile sm = old \<and> threads sm = []) \<and>
         (main_pc sm = MClear \<longrightarrow> map_option outfile (step C MainStep sm) = Some []) \<and>
         (truncated (main_pc sm) \<longrightarrow> prefix (outfile sm) (outfile s)) \<and>
         (main_pc s = MFinished \<longrightarrow> length (outfile s) = length (read_prompts ls))"
proof -
  note im = reachable_invs[OF assms(1)]
  note i = invs_run[OF im assms(2)]
  from im have "\<not> truncated (main_pc sm) \<longrightarrow> outfile sm = old \<and> threads sm = []"
    by (simp add: invs_def inv_pre_def)
  moreover have "main_pc sm = MClear \<longrightarrow> map_option outfile (step C MainStep sm) = Some []"
    by simp
  moreover from outfile_grows_run[OF _ assms(2)]
  have "truncated (main_pc sm) \<longrightarrow> prefix (outfile sm) (outfile s)" by simp
  moreover have "length (outfile s) = length (read_prompts ls)" if "main_pc s = MFinished"
    using mset_eq_length[OF finished_items[OF i that]] by simp
  ultimately show ?thesis by blast
qed

theorem truncate_then_append_witness:
  "run MAX_THREADS sched_items_done (init (Some two_lines) stale_log)
     = Some state_items_done \<and>
   run MAX_THREADS sched_drain state_items_done = Some state_finished \<and>
   truncated (main_pc state_items_done) \<and>
   prefix (outfile state_items_done) (outfile state_finished) \<and>
   main_pc state_finished = MFinished \<and>
   length (outfile state_finished) = length (read_prompts two_lines) \<and>
   \<not> truncated (main_pc (the (run MAX_THREADS [MainStep] (init (Some two_lines) stale_log)))) \<and>
   outfile (the (run MAX_THREADS [MainStep] (init (Some two_lines) stale_log))) = stale_log"
proof -
  have r1: "run MAX_THREADS sched_items_done (init (Some two_lines) stale_log)
              = Some state_items_done"
    by (simp add: run_defs)
  have r2: "run MAX_THREADS sched_drain state_items_done = Some state_finished"
    by (simp add: run_defs)
  have f: "truncated (main_pc state_items_done)" "main_pc state_finished = MFinished"
    by (simp_all add: state_items_done_def state_finished_def)
  have r3: "run MAX_THREADS [MainStep] (init (Some two_lines) stale_log)
              = Some (the (run MAX_THREADS [MainStep] (init (Some two_lines) stale_log)))"
    by (simp add: init_def)
  have r4: "run MAX_THREADS [] (the (run MAX_THREADS [MainStep] (init (Some two_lines) stale_log)))
              = Some (the (run MAX_THREADS [MainStep] (init (Some two_lines) stale_log)))"
    by simp
  have g: "\<not> truncated (main_pc (the (run MAX_THREADS [MainStep] (init (Some two_lines) stale_log))))"
    by (simp add: init_def)
  from truncate_then_append[OF r1 r2] truncate_then_append[OF r3 r4] r1 r2 f g
  show ?thesis by simp
qed

text \<open>
  C4, as the specification states it, fails. In \<open>state_items_done\<close> both prompts are
  logged and both \<open>task_done()\<close> calls of line 91 have been made (the workers are back
  at line 86), the two markers are in the queue, and the main thread is in \<open>join\<close>:
  it cannot move, because \<open>unfinished_tasks\<close> also counts the markers.
\<close>

theorem join_counts_markers_counterexample:
  "run MAX_THREADS sched_items_done (init (Some two_lines) stale_log)
     = Some state_items_done \<and>
   outfile state_items_done = [record_beta, record_alpha] \<and>
   threads state_items_done = [WGet, WGet] \<and>
   queue state_items_done = [None, None] \<and>
   main_pc state_items_done = MJoin \<and>
   step MAX_THREADS MainStep state_items_done = None"
  by (simp add: run_defs)

text \<open>
  C4, amended. When the main thread has left \<open>join\<close>, \<open>unfinished_tasks\<close> is zero,
  the queue is empty and every worker has dequeued its marker and marked it done: the
  wait ends only after all prompts and all markers are done. It does not wait for the
  workers to return: a worker may still be before its \<open>break\<close>.
\<close>

theorem join_waits_for_markers:
  assumes "run C sched (init f old) = Some s"
    and "main_pc s = MPrint \<or> main_pc s = MFinished"
  shows "unfinished_tasks s = 0 \<and> queue s = [] \<and> list_all marker_done (threads s)"
proof -
  note i = reachable_invs[OF assms(1)]
  note idle = finished_idle[OF i assms(2)]
  from i assms(2) idle have "sum_list (map took_marker (threads s)) = length (threads s)"
    by (auto simp: invs_def inv_markers_def markers_put_def)
  from all_markers_done[OF this] idle show ?thesis by simp
qed

theorem join_waits_for_markers_witness:
  "run MAX_THREADS (sched_items_done @ sched_drain) (init (Some two_lines) stale_log)
     = Some state_finished \<and>
   main_pc state_finished = MFinished \<and>
   unfinished_tasks state_finished = 0 \<and>
   list_all marker_done (threads state_finished) \<and>
   threads state_finished = [WExited, WMarkerDone]"
proof -
  have r: "run MAX_THREADS (sched_items_done @ sched_drain) (init (Some two_lines) stale_log)
             = Some state_finished"
    by (simp add: run_defs)
  have f: "main_pc state_finished = MFinished"
    "threads state_finished = [WExited, WMarkerDone]"
    by (simp_all add: state_finished_def)
  from join_waits_for_markers[OF r] r f show ?thesis by simp
qed

text \<open>
  C5, as the specification states it, fails. Worker 0 holds the lock with the record
  of \<open>alpha\<close> and its write raises: the thread ends. Worker 1 then logs \<open>beta\<close>,
  takes a marker and returns. In the state reached the log has no record for
  \<open>alpha\<close>, neither a success nor an \<open>ERROR\<close> record; worker 0 takes no further
  entry, one marker stays in the queue, and the main thread cannot leave \<open>join\<close>.
\<close>

theorem write_failure_counterexample:
  "run MAX_THREADS sched_before_write (init (Some two_lines) stale_log)
     = Some state_before_write \<and>
   step MAX_THREADS (Write 0 False) state_before_write = Some state_write_failed \<and>
   run MAX_THREADS sched_after_failure state_write_failed = Some state_hung \<and>
   threads state_hung = [WCrashed (Some unwritten_alpha), WExited] \<and>
   map prompt (outfile state_hung) = [codes ''beta''] \<and>
   queue state_hung = [None] \<and>
   step MAX_THREADS (Get 0) state_hung = None \<and>
   step MAX_THREADS (Get 1) state_hung = None \<and>
   main_pc state_hung = MJoin \<and>
   step MAX_THREADS MainStep state_hung = None"
  by (simp add: run_defs error_result_def)

text \<open>
  C5, amended. When a write raises, the exception is caught nowhere: in every state
  reached afterwards the thread is dead, \<open>unfinished_tasks\<close> is positive, so the main
  thread is never past \<open>join\<close> and never prints the completion message, and the log
  has fewer records than there are prompts. No record is written for the failure.
\<close>

theorem failed_write_hangs:
  assumes "run C sched (init f old) = Some s1"
    and "step C (Write i False) s1 = Some s2"
    and "run C rest s2 = Some s"
  shows "(\<exists>r. threads s ! i = WCrashed (Some r)) \<and>
         main_pc s \<noteq> MPrint \<and> main_pc s \<noteq> MFinished \<and>
         0 < unfinished_tasks s \<and>
         length (outfile s) < length (prompts s)"
proof -
  from assms(2) obtain r where i2: "i < length (threads s2)"
    and c2: "threads s2 ! i = WCrashed (Some r)"
    by (cases rule: step_cases) (auto simp: set_thread_def)
  from crashed_run[OF assms(3) i2 c2]
  have i: "i < length (threads s)" and c: "threads s ! i = WCrashed (Some r)" by simp_all
  have inv: "invs C f old s"
    using invs_run[OF invs_step[OF reachable_invs[OF assms(1)] assms(2)] assms(3)] .
  then have cnt: "inv_count s" and pre: "inv_pre f old s" and items: "inv_items s"
    and join: "inv_join s"
    by (simp_all add: invs_def)
  from unfinished_pos[OF cnt i] c have pos: "0 < unfinished_tasks s" by simp
  with join have pc: "main_pc s \<noteq> MPrint \<and> main_pc s \<noteq> MFinished"
    by (auto simp: inv_join_def)
  from i have "threads s \<noteq> []" by auto
  from threads_started[OF pre this] items
  have "mset (map prompt (outfile s)) + sum_list (map queued (queue s)) +
        sum_list (map held (threads s)) + mset (pending (main_pc s) (prompts s))
        = mset (prompts s)"
    by (simp add: inv_items_def)
  from arg_cong[OF this, of size]
  have "length (outfile s) + size (sum_list (map queued (queue s))) +
        size (sum_list (map held (threads s))) + length (pending (main_pc s) (prompts s))
        = length (prompts s)"
    by simp
  moreover from size_held_le[OF i] c have "1 \<le> size (sum_list (map held (threads s)))"
    by simp
  ultimately have "length (outfile s) < length (prompts s)" by linarith
  with c pos pc show ?thesis by simp
qed

theorem failed_write_hangs_witness:
  "run MAX_THREADS sched_before_write (init (Some two_lines) stale_log)
     = Some state_before_write \<and>
   step MAX_THREADS (Write 0 False) state_before_write = Some state_write_failed \<and>
   run MAX_THREADS sched_after_failure state_write_failed = Some state_hung \<and>
   threads state_hung ! 0 = WCrashed (Some unwritten_alpha) \<and>
   main_pc state_hung \<noteq> MFinished \<and>
   0 < unfinished_tasks state_hung \<and>
   length (outfile state_hung) < length (prompts state_hung)"
proof -
  have r1: "run MAX_THREADS sched_before_write (init (Some two_lines) stale_log)
              = Some state_before_write"
    by (simp add: run_defs)
  have w: "step MAX_THREADS (Write 0 False) state_before_write = Some state_write_failed"
    by (simp add: run_defs)
  have r2: "run MAX_THREADS sched_after_failure state_write_failed = Some state_hung"
    by (simp add: run_defs)
  have c: "threads state_hung ! 0 = WCrashed (Some unwritten_alpha)"
    by (simp add: state_hung_def)
  from failed_write_hangs[OF r1 w r2] r1 w r2 c show ?thesis by simp
qed

text \<open>
  C3, as the specification states it, fails for an input without work items. With a
  prompt file of blank lines and a log left from an earlier run, the main thread runs
  to its end: the log is truncated and the exit status is 0.
\<close>

theorem no_items_counterexample:
  "read_prompts blank_lines = [] \<and>
   stale_log \<noteq> [] \<and>
   map_option outfile (run MAX_THREADS sched_no_items (init (Some blank_lines) stale_log))
     = Some [] \<and>
   map_option (\<lambda>s. exit_status (main_pc s))
     (run MAX_THREADS sched_no_items (init (Some blank_lines) stale_log)) = Some (Some 0)"
  by (simp add: run_defs)

lemma no_threads_step:
  assumes "step C a s = Some s'" and "threads s = []"
  shows "a = MainStep"
  using assms by (cases rule: step_cases) simp_all

lemma missing_file_run:
  assumes "run C sched (init None old) = Some s"
  shows "sched = [] \<and> s = init None old \<or>
         sched = [MainStep] \<and> s = (init None old)\<lparr>main_pc := MFailed\<rparr>"
proof (cases sched)
  case Nil
  with assms show ?thesis by simp
next
  case (Cons a rest)
  with assms obtain t where t: "step C a (init None old) = Some t"
    and r: "run C rest t = Some s"
    by (auto split: option.splits)
  from no_threads_step[OF t] have a: "a = MainStep" by (simp add: init_def)
  with t have t': "t = (init None old)\<lparr>main_pc := MFailed\<rparr>" by (simp add: init_def)
  show ?thesis
  proof (cases rest)
    case Nil
    with r a t' Cons show ?thesis by simp
  next
    case (Cons b rest')
    with r obtain u where u: "step C b t = Some u" by (auto split: option.splits)
    from no_threads_step[OF u] t' have "b = MainStep" by (simp add: init_def)
    with u t' show ?thesis by (simp add: init_def)
  qed
qed

lemma no_items_run:
  assumes "run C sched (init (Some ls) old) = Some s" and "read_prompts ls = []"
  shows "threads s = [] \<and> main_pc s \<noteq> MFailed \<and> (truncated (main_pc s) \<longrightarrow> outfile s = [])"
proof -
  from reachable_invs[OF assms(1)]
  have pre: "inv_pre (Some ls) old s" and pool: "inv_pool C s" and items: "inv_items s"
    by (simp_all add: invs_def)
  from pre assms(2) have p: "main_pc s \<noteq> MFailed" "truncated (main_pc s) \<longrightarrow> prompts s = []"
    by (auto simp: inv_pre_def)
  from pre pool p have "threads s = []"
    by (cases "truncated (main_pc s)") (auto simp: inv_pre_def inv_pool_def)
  moreover from items p have "truncated (main_pc s) \<longrightarrow> outfile s = []"
    by (auto simp: inv_items_def)
  ultimately show ?thesis using p by simp
qed

text \<open>
  C3, amended. When the input file is missing, the main thread ends with an uncaught
  exception at line 94: in every state of the run the output file has its prior
  content and no worker exists, and after the first step the exit status is 1. An
  input file without work items is not an error: no worker is started, the run never
  fails, the output file is empty once line 101 has run, and the seven statements of
  the main thread end with the file empty, the count 0 reported and status 0.
\<close>

theorem configuration_errors:
  "(run C sched (init None old) = Some s \<longrightarrow>
      outfile s = old \<and> threads s = [] \<and>
      (sched \<noteq> [] \<longrightarrow> exit_status (main_pc s) = Some 1)) \<and>
   (read_prompts ls = [] \<and> run C sched' (init (Some ls) old) = Some s' \<longrightarrow>
      threads s' = [] \<and> main_pc s' \<noteq> MFailed \<and>
      (truncated (main_pc s') \<longrightarrow> outfile s' = [])) \<and>
   (read_prompts ls = [] \<longrightarrow>
      run C sched_no_items (init (Some ls) old)
        = Some ((init (Some ls) old)
                  \<lparr>outfile := [], main_pc := MFinished, reported := Some 0\<rparr>) \<and>
      exit_status MFinished = Some 0)"
proof -
  have a: "outfile s = old \<and> threads s = [] \<and>
           (sched \<noteq> [] \<longrightarrow> exit_status (main_pc s) = Some 1)"
    if "run C sched (init None old) = Some s"
    using missing_file_run[OF that] by (auto simp: init_def)
  have b: "threads s' = [] \<and> main_pc s' \<noteq> MFailed \<and>
           (truncated (main_pc s') \<longrightarrow> outfile s' = [])"
    if "read_prompts ls = []" and "run C sched' (init (Some ls) old) = Some s'"
    using no_items_run[OF that(2,1)] .
  have c: "run C sched_no_items (init (Some ls) old)
             = Some ((init (Some ls) old)
                       \<lparr>outfile := [], main_pc := MFinished, reported := Some 0\<rparr>)"
    if "read_prompts ls = []"
    using that by (simp add: sched_no_items_def init_def)
  from a b c show ?thesis by simp
qed

theorem configuration_errors_witness:
  "run MAX_THREADS [MainStep] (init None stale_log)
     = Some ((init None stale_log)\<lparr>main_pc := MFailed\<rparr>) \<and>
   outfile ((init None stale_log)\<lparr>main_pc := MFailed\<rparr>) = stale_log \<and>
   exit_status (main_pc ((init None stale_log)\<lparr>main_pc := MFailed\<rparr>)) = Some 1 \<and>
   read_prompts blank_lines = [] \<and>
   run MAX_THREADS sched_no_items (init (Some blank_lines) stale_log)
     = Some ((init (Some blank_lines) stale_log)
               \<lparr>outfile := [], main_pc := MFinished, reported := Some 0\<rparr>)"
proof -
  have r: "run MAX_THREADS [MainStep] (init None stale_log)
             = Some ((init None stale_log)\<lparr>main_pc := MFailed\<rparr>)"
    by (simp add: init_def)
  have e: "read_prompts blank_lines = []"
    by (simp add: run_defs)
  from configuration_errors
         [of MAX_THREADS "[MainStep]" stale_log "(init None stale_log)\<lparr>main_pc := MFailed\<rparr>"
             blank_lines "[]" "init (Some blank_lines) stale_log"]
       r e
  show ?thesis by (simp add: init_def)
qed

end
